theory Spec2Isabelle
  imports Main
begin

unbundle bit_operations_syntax

section \<open>LogFlow: the paged logger of \<^verbatim>\<open>src/logger.c\<close>\<close>

text \<open>
  The logger lives in one block obtained from \<^verbatim>\<open>mallocv\<close>: a header
  (\<^verbatim>\<open>struct logger_t\<close>) followed by one block per page, each block a
  \<^verbatim>\<open>page_list\<close> record followed by its character buffer.  The write
  routine stores bytes through \<^verbatim>\<open>char *\<close> arithmetic, so the model keeps
  the block as byte-addressed memory and every field access is a load or
  store at the field's address.

  The record layout is the one of the desktop build (\<^verbatim>\<open>CMakeLists.txt\<close>,
  gcc, the \<^verbatim>\<open>malloc\<close> branch of \<^verbatim>\<open>mallocv\<close>) on a little-endian
  LP64/LLP64 target: \<^verbatim>\<open>int\<close> and the enum are 4 bytes, pointers are
  8 bytes, \<^verbatim>\<open>struct list_head\<close> is two pointers.
\<close>

subsection \<open>Byte-addressed memory\<close>

type_synonym addr = int
type_synonym memory = "addr \<Rightarrow> char"

definition NUL :: char where
  "NUL = CHR 0x00"

text \<open>Little-endian encoding of an integer in \<open>n\<close> bytes (two's complement: the value is
  taken modulo \<open>256 ^ n\<close>).\<close>

fun le_bytes :: "nat \<Rightarrow> int \<Rightarrow> char list" where
  "le_bytes 0 v = []"
| "le_bytes (Suc n) v = char_of v # le_bytes n (v div 256)"

fun le_value :: "char list \<Rightarrow> int" where
  "le_value [] = 0"
| "le_value (c # cs) = of_char c + 256 * le_value cs"

fun write_bytes :: "memory \<Rightarrow> addr \<Rightarrow> char list \<Rightarrow> memory" where
  "write_bytes m a [] = m"
| "write_bytes m a (c # cs) = write_bytes (m(a := c)) (a + 1) cs"

fun read_bytes :: "memory \<Rightarrow> addr \<Rightarrow> nat \<Rightarrow> char list" where
  "read_bytes m a 0 = []"
| "read_bytes m a (Suc n) = m a # read_bytes m (a + 1) n"

text \<open>A C \<^verbatim>\<open>int\<close>: 4 bytes, read back as a signed value.\<close>

definition store_int :: "memory \<Rightarrow> addr \<Rightarrow> int \<Rightarrow> memory" where
  "store_int m a v = write_bytes m a (le_bytes 4 v)"

definition load_int :: "memory \<Rightarrow> addr \<Rightarrow> int" where
  "load_int m a =
     (let u = le_value (read_bytes m a 4) in if u < 2147483648 then u else u - 4294967296)"

text \<open>A pointer: 8 bytes, unsigned.\<close>

definition store_ptr :: "memory \<Rightarrow> addr \<Rightarrow> addr \<Rightarrow> memory" where
  "store_ptr m a p = write_bytes m a (le_bytes 8 p)"

definition load_ptr :: "memory \<Rightarrow> addr \<Rightarrow> addr" where
  "load_ptr m a = le_value (read_bytes m a 8)"

subsection \<open>Faults\<close>

text \<open>Executions that leave defined behaviour are values of their own: a failed
  \<^verbatim>\<open>assert\<close>, a \<^verbatim>\<open>memcpy\<close> or \<^verbatim>\<open>memset\<close> whose \<^verbatim>\<open>int\<close> length is
  negative (it becomes a huge \<^verbatim>\<open>size_t\<close>) or reads past the source array, a
  \<^verbatim>\<open>strlen\<close> of an array without terminator, and a block whose size did not
  survive the conversion to the \<^verbatim>\<open>int\<close> parameter of \<^verbatim>\<open>mallocv\<close>.\<close>

datatype fault = AssertFailed | BadMemcpy | BadMemset | BadString | BlockTooSmall

definition strlen :: "char list \<Rightarrow> int option" where
  "strlen data =
     (if NUL \<in> set data then Some (int (length (takeWhile (\<lambda>c. c \<noteq> NUL) data))) else None)"

definition memcpy :: "memory \<Rightarrow> addr \<Rightarrow> char list \<Rightarrow> int \<Rightarrow> fault + memory" where
  "memcpy m dst src n =
     (if n < 0 \<or> int (length src) < n then Inl BadMemcpy
      else Inr (write_bytes m dst (take (nat n) src)))"

definition memset :: "memory \<Rightarrow> addr \<Rightarrow> char \<Rightarrow> int \<Rightarrow> fault + memory" where
  "memset m dst c n =
     (if n < 0 then Inl BadMemset else Inr (write_bytes m dst (replicate (nat n) c)))"

subsection \<open>Layout\<close>

text \<open>\<^verbatim>\<open>ALIGN_PTR(p, align)\<close> is \<^verbatim>\<open>(p + (align - 1)) & ~(align - 1)\<close>.\<close>

definition ALIGN_PTR :: "int \<Rightarrow> int \<Rightarrow> int" where
  "ALIGN_PTR p align = (p + (align - 1)) AND NOT (align - 1)"

definition BUFFER_ALIGNMENT :: int where
  "BUFFER_ALIGNMENT = 8"

text \<open>\<^verbatim>\<open>struct page_list { page_type_t type; int remaining; char *buffer;
  struct list_head list; }\<close>: fields at offsets 0, 4, 8 and 16.\<close>

definition sizeof_page_list :: int where
  "sizeof_page_list = 32"

definition alignof_page_list :: int where
  "alignof_page_list = 8"

text \<open>\<^verbatim>\<open>struct logger_t { int page_buffer_size; int total_pages; page_list pages; }\<close>:
  fields at offsets 0, 4 and 8.\<close>

definition LOGGER_SIZE_BASE :: int where
  "LOGGER_SIZE_BASE = 40"

definition LOGGER_BLOCK_SIZE :: "int \<Rightarrow> int" where
  "LOGGER_BLOCK_SIZE page_size =
     ALIGN_PTR sizeof_page_list alignof_page_list + ALIGN_PTR page_size BUFFER_ALIGNMENT"

definition LOGGER_ALLOC_SIZE :: "int \<Rightarrow> int \<Rightarrow> int" where
  "LOGGER_ALLOC_SIZE pages page_size =
     LOGGER_SIZE_BASE + pages * LOGGER_BLOCK_SIZE page_size + BUFFER_ALIGNMENT"

text \<open>Field accessors.\<close>

definition page_type :: "memory \<Rightarrow> addr \<Rightarrow> int" where
  "page_type m p = load_int m p"

definition page_remaining :: "memory \<Rightarrow> addr \<Rightarrow> int" where
  "page_remaining m p = load_int m (p + 4)"

definition page_buffer :: "memory \<Rightarrow> addr \<Rightarrow> addr" where
  "page_buffer m p = load_ptr m (p + 8)"

definition set_page_type :: "memory \<Rightarrow> addr \<Rightarrow> int \<Rightarrow> memory" where
  "set_page_type m p v = store_int m p v"

definition set_page_remaining :: "memory \<Rightarrow> addr \<Rightarrow> int \<Rightarrow> memory" where
  "set_page_remaining m p v = store_int m (p + 4) v"

definition set_page_buffer :: "memory \<Rightarrow> addr \<Rightarrow> addr \<Rightarrow> memory" where
  "set_page_buffer m p b = store_ptr m (p + 8) b"

definition page_buffer_size :: "memory \<Rightarrow> addr \<Rightarrow> int" where
  "page_buffer_size m logger = load_int m logger"

definition total_pages :: "memory \<Rightarrow> addr \<Rightarrow> int" where
  "total_pages m logger = load_int m (logger + 4)"

text \<open>Modelled from the spec: \<^verbatim>\<open>logger.h\<close>, which declares \<^verbatim>\<open>page_type_t\<close>, is
  not among the sources; the enumerators and their values are those of the API reference
  (\<^verbatim>\<open>PAGE_TYPE_ERROR = -1\<close>, \<^verbatim>\<open>PAGE_TYPE_DEFAULT = 0\<close>, then counting up).\<close>

datatype page_type_t =
  PAGE_TYPE_ERROR | PAGE_TYPE_DEFAULT | PAGE_TYPE_INFO | PAGE_TYPE_INFO_DEBUG | PAGE_TYPE_WARNING

fun enum_value :: "page_type_t \<Rightarrow> int" where
  "enum_value PAGE_TYPE_ERROR = -1"
| "enum_value PAGE_TYPE_DEFAULT = 0"
| "enum_value PAGE_TYPE_INFO = 1"
| "enum_value PAGE_TYPE_INFO_DEBUG = 2"
| "enum_value PAGE_TYPE_WARNING = 3"

subsection \<open>The machine state\<close>

text \<open>Modelled from the spec: \<^verbatim>\<open>genList.h\<close> (\<^verbatim>\<open>struct list_head\<close>,
  \<^verbatim>\<open>INIT_LIST_HEAD\<close>, \<^verbatim>\<open>list_add_tail\<close>, \<^verbatim>\<open>list_for_each_entry_safe\<close>) is
  not among the sources.  The intrusive list rooted at \<^verbatim>\<open>logger->pages.list\<close> is kept
  as the sequence of the addresses of its entries, in link order: initialisation empties it,
  adding at the tail appends, and the traversal macro visits the entries from the head.\<close>

record machine =
  mem :: memory
  page_entries :: "addr list"

definition logger_page_add :: "machine \<Rightarrow> addr \<Rightarrow> machine" where
  "logger_page_add w page = w\<lparr>page_entries := page_entries w @ [page]\<rparr>"

subsection \<open>Creation\<close>

text \<open>Arithmetic in \<^verbatim>\<open>uintptr_t\<close> is modulo \<open>2 ^ 64\<close>; the two ends compared by the
  assertion of \<^verbatim>\<open>page_init\<close> are computed that way.\<close>

definition uintptr_t :: "int \<Rightarrow> int" where
  "uintptr_t n = n mod 18446744073709551616"

text \<open>The body of the \<^verbatim>\<open>for\<close> loop of \<^verbatim>\<open>page_init\<close>, for page \<open>i\<close>.\<close>

definition page_init_step ::
  "machine \<Rightarrow> addr \<Rightarrow> addr \<Rightarrow> int \<Rightarrow> int \<Rightarrow> int \<Rightarrow> fault + machine" where
  "page_init_step w memory memory_end block_size page_size i =
     (let block = memory + i * block_size;
          new_page = ALIGN_PTR block alignof_page_list;
          buf_start = ALIGN_PTR (new_page + sizeof_page_list) BUFFER_ALIGNMENT;
          m = set_page_buffer (mem w) new_page buf_start;
          m = m(page_buffer m new_page + 0 := NUL);
          m = m(page_buffer m new_page + 1 := NUL);
          m = set_page_remaining m new_page page_size;
          m = set_page_type m new_page (enum_value PAGE_TYPE_DEFAULT);
          buffer_end = uintptr_t (page_buffer m new_page + page_size)
      in if buffer_end \<le> memory_end
         then Inr (logger_page_add (w\<lparr>mem := m\<rparr>) new_page)
         else Inl AssertFailed)"

function page_init_loop ::
  "machine \<Rightarrow> addr \<Rightarrow> addr \<Rightarrow> int \<Rightarrow> int \<Rightarrow> int \<Rightarrow> int \<Rightarrow> fault + machine" where
  "page_init_loop w memory memory_end block_size page_amount page_size i =
     (if i < page_amount then
        (case page_init_step w memory memory_end block_size page_size i of
           Inl f \<Rightarrow> Inl f
         | Inr w' \<Rightarrow> page_init_loop w' memory memory_end block_size page_amount page_size (i + 1))
      else Inr w)"
  by pat_completeness auto
termination
  by (relation "measure (\<lambda>(w, memory, memory_end, block_size, page_amount, page_size, i).
        nat (page_amount - i))") auto

declare page_init_loop.simps [simp del]

definition page_init :: "machine \<Rightarrow> addr \<Rightarrow> int \<Rightarrow> int \<Rightarrow> fault + machine" where
  "page_init w memory page_amount page_size =
     (let entry_align = alignof_page_list;
          memory = ALIGN_PTR memory entry_align;
          w = w\<lparr>page_entries := []\<rparr>;
          block_size = LOGGER_BLOCK_SIZE page_size;
          memory_end = uintptr_t (memory + (page_amount + 2) * block_size)
      in page_init_loop w memory memory_end block_size page_amount page_size 0)"

text \<open>A \<^verbatim>\<open>size_t\<close> stored to an \<^verbatim>\<open>int\<close> is cut to 32 bits: the total size passed to
  \<^verbatim>\<open>mallocv\<close>, which takes an \<^verbatim>\<open>int\<close>, and the result of \<^verbatim>\<open>strlen\<close> assigned to
  the \<^verbatim>\<open>int size\<close> of the write routine.\<close>

definition int_of_size_t :: "int \<Rightarrow> int" where
  "int_of_size_t n = (n + 2147483648) mod 4294967296 - 2147483648"

text \<open>The platform allocator is a parameter: \<open>mallocv n\<close> is the address of a block of
  \<open>n\<close> bytes, or \<open>None\<close> for \<^verbatim>\<open>NULL\<close>.  A returned handle is \<open>Some logger\<close>, a
  \<^verbatim>\<open>NULL\<close> handle is \<open>None\<close>.\<close>

definition logger_create ::
  "(int \<Rightarrow> addr option) \<Rightarrow> machine \<Rightarrow> int \<Rightarrow> int \<Rightarrow> fault + (addr option \<times> machine)" where
  "logger_create mallocv w page_amount page_size =
     (if page_amount \<le> 0 \<or> page_size \<le> 0 then Inr (None, w)
      else
        (let page_size = (if page_size < 2 then 2 else page_size);
             alloc_size = LOGGER_ALLOC_SIZE page_amount page_size
         in case mallocv (int_of_size_t alloc_size) of
              None \<Rightarrow> Inr (None, w)
            | Some logger \<Rightarrow>
                if int_of_size_t alloc_size \<noteq> alloc_size then Inl BlockTooSmall
                else
                  (let m = store_int (mem w) logger page_size;
                       m = store_int m (logger + 4) page_amount;
                       raw = logger + LOGGER_SIZE_BASE;
                       aligned = ALIGN_PTR raw alignof_page_list
                   in case page_init (w\<lparr>mem := m\<rparr>) aligned page_amount page_size of
                        Inl f \<Rightarrow> Inl f
                      | Inr w' \<Rightarrow> Inr (Some logger, w'))))"

subsection \<open>Traversal\<close>

text \<open>\<^verbatim>\<open>list_for_each_entry_safe\<close> with a counter going up from \<open>index\<close>, leaving the
  loop at the entry where the counter equals \<open>target\<close> (the write routine,
  \<^verbatim>\<open>logger_set_page_type\<close>, \<^verbatim>\<open>logger_get_page_buffer\<close>).\<close>

fun entry_at :: "addr list \<Rightarrow> int \<Rightarrow> int \<Rightarrow> addr option" where
  "entry_at [] index target = None"
| "entry_at (current # rest) index target =
     (if index = target then Some current else entry_at rest (index + 1) target)"

text \<open>The same traversal as \<^verbatim>\<open>logger_clear_page\<close> writes it: the index counts down and
  the loop is left where it is 0.\<close>

fun entry_down :: "addr list \<Rightarrow> int \<Rightarrow> addr option" where
  "entry_down [] page_index = None"
| "entry_down (current # rest) page_index =
     (if page_index = 0 then Some current else entry_down rest (page_index - 1))"

subsection \<open>Writing\<close>

text \<open>The body of the loop of \<^verbatim>\<open>__logger_add_data_helper\<close> at the entry found.\<close>

definition add_data_at ::
  "machine \<Rightarrow> addr \<Rightarrow> addr \<Rightarrow> char list \<Rightarrow> int \<Rightarrow> char \<Rightarrow> fault + (int \<times> machine)" where
  "add_data_at w logger current data sz endc =
     (let m = mem w;
          offset = page_buffer_size m logger - page_remaining m current;
          sz = (if sz > page_remaining m current then page_remaining m current else sz);
          m = (if endc \<noteq> NUL then
                 (let m = m(page_buffer m current + (offset + sz) := endc);
                      m = m(page_buffer m current + (offset + sz + 1) := NUL)
                  in set_page_remaining m current (page_remaining m current - (sz + 1)))
               else
                 (let m = m(page_buffer m current + (offset + sz) := NUL)
                  in set_page_remaining m current (page_remaining m current - sz)))
      in case memcpy m (page_buffer m current + offset) data sz of
           Inl f \<Rightarrow> Inl f
         | Inr m' \<Rightarrow> Inr (sz, w\<lparr>mem := m'\<rparr>))"

definition logger_add_data_helper ::
  "machine \<Rightarrow> addr \<Rightarrow> char list \<Rightarrow> int \<Rightarrow> int \<Rightarrow> char \<Rightarrow> fault + (int \<times> machine)" where
  "logger_add_data_helper w logger data sz index endc =
     (if index < total_pages (mem w) logger \<and> index \<ge> 0 then
        (case (if sz \<le> 0 then map_option int_of_size_t (strlen data) else Some sz) of
           None \<Rightarrow> Inl BadString
         | Some sz \<Rightarrow>
             (case entry_at (page_entries w) 0 index of
                Some current \<Rightarrow> add_data_at w logger current data sz endc
              | None \<Rightarrow> Inr (- 1, w)))
      else Inr (- 1, w))"

definition logger_save_to_page ::
  "machine \<Rightarrow> addr \<Rightarrow> char list \<Rightarrow> int \<Rightarrow> int \<Rightarrow> fault + (int \<times> machine)" where
  "logger_save_to_page w logger data sz index =
     logger_add_data_helper w logger data sz index NUL"

definition logger_save_to_page_line ::
  "machine \<Rightarrow> addr \<Rightarrow> char list \<Rightarrow> int \<Rightarrow> int \<Rightarrow> fault + (int \<times> machine)" where
  "logger_save_to_page_line w logger data sz index =
     logger_add_data_helper w logger data sz index (CHR 0x0A)"

subsection \<open>Page type, buffer access, clearing\<close>

definition logger_set_page_type ::
  "machine \<Rightarrow> addr \<Rightarrow> int \<Rightarrow> page_type_t \<Rightarrow> int \<times> machine" where
  "logger_set_page_type w logger page_index type =
     (case entry_at (page_entries w) 0 page_index of
        Some current \<Rightarrow> (0, w\<lparr>mem := set_page_type (mem w) current (enum_value type)\<rparr>)
      | None \<Rightarrow> (- 1, w))"

definition logger_get_page_buffer :: "machine \<Rightarrow> addr \<Rightarrow> int \<Rightarrow> addr option \<times> machine" where
  "logger_get_page_buffer w logger page_index =
     (case entry_at (page_entries w) 0 page_index of
        Some current \<Rightarrow> (Some (page_buffer (mem w) current), w)
      | None \<Rightarrow> (None, w))"

definition logger_clear_page :: "machine \<Rightarrow> addr \<Rightarrow> int \<Rightarrow> fault + machine" where
  "logger_clear_page w logger page_index =
     (case entry_down (page_entries w) page_index of
        Some current \<Rightarrow>
          (case memset (mem w) (page_buffer (mem w) current) NUL
                  (page_buffer_size (mem w) logger) of
             Inl f \<Rightarrow> Inl f
           | Inr m \<Rightarrow>
               (let m = set_page_remaining m current (page_buffer_size m logger);
                    m = set_page_type m current (enum_value PAGE_TYPE_DEFAULT)
                in Inr (w\<lparr>mem := m\<rparr>)))
      | None \<Rightarrow> Inr w)"

fun clear_all_loop :: "memory \<Rightarrow> addr \<Rightarrow> addr list \<Rightarrow> memory" where
  "clear_all_loop m logger [] = m"
| "clear_all_loop m logger (current # rest) =
     (let m = m(page_buffer m current + 0 := NUL);
          m = m(page_buffer m current + 1 := NUL);
          m = set_page_remaining m current (page_buffer_size m logger);
          m = set_page_type m current (enum_value PAGE_TYPE_DEFAULT)
      in clear_all_loop m logger rest)"

definition logger_clear_all :: "machine \<Rightarrow> addr \<Rightarrow> machine" where
  "logger_clear_all w logger = w\<lparr>mem := clear_all_loop (mem w) logger (page_entries w)\<rparr>"

subsection \<open>Observing a logger\<close>

text \<open>The fields of all pages, in list order, and the string a buffer holds (read up to
  the first \<^verbatim>\<open>NUL\<close>, looking at no more than \<open>n\<close> bytes).\<close>

definition remaining_list :: "machine \<Rightarrow> int list" where
  "remaining_list w = map (page_remaining (mem w)) (page_entries w)"

definition type_list :: "machine \<Rightarrow> int list" where
  "type_list w = map (page_type (mem w)) (page_entries w)"

definition buffer_list :: "machine \<Rightarrow> nat \<Rightarrow> char list list" where
  "buffer_list w n = map (\<lambda>p. read_bytes (mem w) (page_buffer (mem w) p) n) (page_entries w)"

definition c_string :: "memory \<Rightarrow> addr \<Rightarrow> nat \<Rightarrow> char list" where
  "c_string m a n = takeWhile (\<lambda>c. c \<noteq> NUL) (read_bytes m a n)"

text \<open>A machine before any logger exists, with arbitrary bytes \<open>m0\<close> in memory, and an
  allocator that hands out the block at address \<open>b\<close>.\<close>

definition fresh :: "memory \<Rightarrow> machine" where
  "fresh m0 = \<lparr>mem = m0, page_entries = []\<rparr>"

definition mallocv_at :: "addr \<Rightarrow> int \<Rightarrow> addr option" where
  "mallocv_at b n = (if 0 \<le> n then Some b else None)"

text \<open>A logger to try things on: two pages of 8 bytes, created at address 4096 in a memory
  full of question marks.\<close>

definition example_logger :: machine where
  "example_logger = snd (projr (logger_create (mallocv_at 4096) (fresh (\<lambda>a. CHR ''?'')) 2 8))"

text \<open>The example logger after page 0 has been tagged \<^verbatim>\<open>PAGE_TYPE_WARNING\<close>, and after
  the three bytes \<open>abc\<close> have been written to page 0.\<close>

definition example_tagged :: machine where
  "example_tagged = snd (logger_set_page_type example_logger 4096 0 PAGE_TYPE_WARNING)"

definition example_written :: machine where
  "example_written =
     snd (projr (logger_save_to_page example_logger 4096 (''abc'' @ [NUL]) 3 0))"

text \<open>What a caller can see of the pages: the counters, the types, and the first \<open>n\<close> bytes
  of every buffer; and the strings the buffers hold.\<close>

definition observe :: "nat \<Rightarrow> machine \<Rightarrow> int list \<times> int list \<times> char list list" where
  "observe n w = (remaining_list w, type_list w, buffer_list w n)"

definition string_list :: "machine \<Rightarrow> nat \<Rightarrow> char list list" where
  "string_list w n = map (\<lambda>p. c_string (mem w) (page_buffer (mem w) p) n) (page_entries w)"

subsection \<open>Well-formed loggers\<close>

text \<open>Where \<^verbatim>\<open>page_init\<close> puts the record of page \<open>i\<close>: the blocks follow the header
  back to back.\<close>

definition page_addr :: "addr \<Rightarrow> int \<Rightarrow> int \<Rightarrow> addr" where
  "page_addr logger cap i =
     ALIGN_PTR (logger + LOGGER_SIZE_BASE) alignof_page_list + i * LOGGER_BLOCK_SIZE cap"

text \<open>The shape of memory that \<^verbatim>\<open>logger_create\<close> sets up and every operation keeps:
  the header holds a page size of at least 2 and a positive page count, the list holds the
  records of the pages in order, every record points to the buffer right behind it, and no
  \<^verbatim>\<open>remaining\<close> counter is above the page size or below \<open>-1\<close>.\<close>

definition well_formed :: "machine \<Rightarrow> addr \<Rightarrow> bool" where
  "well_formed w logger \<longleftrightarrow>
     (let m = mem w; cap = page_buffer_size m logger; n = total_pages m logger
      in 2 \<le> cap \<and> 0 < n \<and>
         page_entries w = map (page_addr logger cap) [0..n - 1] \<and>
         (\<forall>p \<in> set (page_entries w).
            page_buffer m p = p + sizeof_page_list \<and>
            - 1 \<le> page_remaining m p \<and> page_remaining m p \<le> cap))"

text \<open>The memory a write leaves behind, in closed form: \<open>s\<close> payload bytes at offset
  \<open>cap - rem\<close> of the buffer behind record \<open>p\<close>, then the terminator and a \<^verbatim>\<open>NUL\<close> (or
  only a \<^verbatim>\<open>NUL\<close>), and the new counter.\<close>

definition written ::
  "memory \<Rightarrow> addr \<Rightarrow> int \<Rightarrow> int \<Rightarrow> int \<Rightarrow> char \<Rightarrow> char list \<Rightarrow> memory" where
  "written m p cap rem s endc data =
     write_bytes
       (set_page_remaining
          (if endc \<noteq> NUL
           then m(p + 32 + (cap - rem + s) := endc, p + 32 + (cap - rem + s + 1) := NUL)
           else m(p + 32 + (cap - rem + s) := NUL))
          p (rem - (if endc \<noteq> NUL then s + 1 else s)))
       (p + 32 + (cap - rem)) (take (nat s) data)"

text \<open>A page as \<^verbatim>\<open>page_init\<close> leaves it: the record points to the buffer behind it, the
  whole page size remains, the type is \<^verbatim>\<open>PAGE_TYPE_DEFAULT\<close>, and the first two bytes of
  the buffer are \<^verbatim>\<open>NUL\<close>.\<close>

definition page_fresh :: "memory \<Rightarrow> addr \<Rightarrow> int \<Rightarrow> bool" where
  "page_fresh m p cap \<longleftrightarrow>
     page_buffer m p = p + 32 \<and> page_remaining m p = cap \<and>
     page_type m p = enum_value PAGE_TYPE_DEFAULT \<and> m (p + 32) = NUL \<and> m (p + 33) = NUL"

text \<open>Memory \<open>m'\<close> differs from \<open>m\<close> at most at the addresses from \<open>lo\<close> up to, not
  including, \<open>hi\<close>.\<close>

definition unchanged_outside :: "memory \<Rightarrow> memory \<Rightarrow> addr \<Rightarrow> addr \<Rightarrow> bool" where
  "unchanged_outside m m' lo hi \<longleftrightarrow> (\<forall>x. x < lo \<or> hi \<le> x \<longrightarrow> m' x = m x)"

text \<open>The memory after \<^verbatim>\<open>logger_clear_page\<close> has cleared the page of record \<open>p\<close>, and after
  one round of the loop of \<^verbatim>\<open>logger_clear_all\<close>, in closed form.\<close>

definition page_cleared :: "memory \<Rightarrow> addr \<Rightarrow> int \<Rightarrow> memory" where
  "page_cleared m p cap =
     set_page_type
       (set_page_remaining (write_bytes m (p + 32) (replicate (nat cap) NUL)) p cap)
       p (enum_value PAGE_TYPE_DEFAULT)"

definition page_reset :: "memory \<Rightarrow> addr \<Rightarrow> int \<Rightarrow> memory" where
  "page_reset m p cap =
     set_page_type
       (set_page_remaining (m(p + 32 + 0 := NUL, p + 32 + 1 := NUL)) p cap)
       p (enum_value PAGE_TYPE_DEFAULT)"

text \<open>Clearing all pages as the specification words it: the single-page clear applied to
  each index in turn.\<close>

fun clear_each :: "machine \<Rightarrow> addr \<Rightarrow> int list \<Rightarrow> fault + machine" where
  "clear_each w logger [] = Inr w"
| "clear_each w logger (i # is) =
     (case logger_clear_page w logger i of
        Inl f \<Rightarrow> Inl f
      | Inr w' \<Rightarrow> clear_each w' logger is)"

text \<open>A page as \<^verbatim>\<open>logger_clear_page\<close> leaves it, byte by byte: type 0, the full counter,
  and a buffer of \<open>cap\<close> zero bytes.\<close>

definition page_zeroed :: "memory \<Rightarrow> addr \<Rightarrow> int \<Rightarrow> bool" where
  "page_zeroed m p cap \<longleftrightarrow>
     read_bytes m p 4 = le_bytes 4 (enum_value PAGE_TYPE_DEFAULT) \<and>
     read_bytes m (p + 4) 4 = le_bytes 4 cap \<and>
     read_bytes m (p + 32) (nat cap) = replicate (nat cap) NUL"

text \<open>The states a logger at address \<open>logger\<close> can be in: the state \<^verbatim>\<open>logger_create\<close>
  returns it in, for a block that lies in the address space, and every state a call of the
  interface that returns leads to.  With the pointer that \<^verbatim>\<open>logger_get_page_buffer\<close> hands
  out the caller may store bytes into the buffer of a page.\<close>

inductive reachable :: "addr \<Rightarrow> machine \<Rightarrow> bool" for logger :: addr where
  create: "logger_create mallocv w0 page_amount page_size = Inr (Some logger, w) \<Longrightarrow>
      0 \<le> logger \<Longrightarrow>
      logger + LOGGER_ALLOC_SIZE page_amount (max page_size 2) \<le> 18446744073709551616 \<Longrightarrow>
      reachable logger w"
| save: "reachable logger w \<Longrightarrow>
      logger_save_to_page w logger data sz index = Inr (r, w') \<Longrightarrow> reachable logger w'"
| save_line: "reachable logger w \<Longrightarrow>
      logger_save_to_page_line w logger data sz index = Inr (r, w') \<Longrightarrow> reachable logger w'"
| set_type: "reachable logger w \<Longrightarrow>
      logger_set_page_type w logger page_index t = (r, w') \<Longrightarrow> reachable logger w'"
| clear_page: "reachable logger w \<Longrightarrow>
      logger_clear_page w logger page_index = Inr w' \<Longrightarrow> reachable logger w'"
| clear_all: "reachable logger w \<Longrightarrow> reachable logger (logger_clear_all w logger)"
| buffer_write: "reachable logger w \<Longrightarrow>
      logger_get_page_buffer w logger page_index = (Some b, w') \<Longrightarrow>
      0 \<le> k \<Longrightarrow> k < page_buffer_size (mem w) logger \<Longrightarrow>
      reachable logger (w'\<lparr>mem := (mem w')(b + k := c)\<rparr>)"

section \<open>Memory and layout facts\<close>

lemma and_not7: "(x::int) AND NOT 7 = (x div 8) * 8"
proof -
  have "x AND NOT (mask 3) = push_bit 3 (drop_bit 3 x)"
    by (auto simp add: bit_eq_iff bit_simps)
  then show ?thesis by (simp add: push_bit_eq_mult drop_bit_eq_div mask_eq_exp_minus_1)
qed

lemma write_bytes_apply:
  "write_bytes m a bs x = (if a \<le> x \<and> x < a + int (length bs) then bs ! nat (x - a) else m x)"
proof (induction bs arbitrary: m a)
  case Nil
  then show ?case by auto
next
  case (Cons c cs)
  show ?case
  proof -
    have "a + 1 \<le> x \<Longrightarrow> nat (x - (a + 1)) = nat (x - a) - Suc 0"
      by arith
    then show ?thesis
      by (simp only: write_bytes.simps Cons.IH) (auto simp add: nth_Cons')
  qed
qed

lemma length_le_bytes [simp]: "length (le_bytes n v) = n"
  by (induction n arbitrary: v) auto

lemma le_value_le_bytes: "le_value (le_bytes n v) = v mod 256 ^ n"
proof (induction n arbitrary: v)
  case 0
  then show ?case by simp
next
  case (Suc n)
  have "v mod (256 * 256 ^ n) = 256 * (v div 256 mod 256 ^ n) + v mod 256"
    by (rule zmod_zmult2_eq) simp
  then show ?case by (simp add: Suc.IH)
qed

lemma length_read_bytes [simp]: "length (read_bytes m a n) = n"
  by (induction n arbitrary: a) auto

lemma read_bytes_nth: "k < n \<Longrightarrow> read_bytes m a n ! k = m (a + int k)"
proof (induction n arbitrary: a k)
  case 0
  then show ?case by simp
next
  case (Suc n)
  then show ?case by (cases k) (auto simp add: add.assoc)
qed

lemma read_bytes_cong:
  "(\<And>x. a \<le> x \<Longrightarrow> x < a + int n \<Longrightarrow> m x = m' x) \<Longrightarrow> read_bytes m a n = read_bytes m' a n"
  by (rule nth_equalityI) (simp_all add: read_bytes_nth)

lemma read_write_bytes_same: "read_bytes (write_bytes m a bs) a (length bs) = bs"
  by (rule nth_equalityI) (simp_all add: read_bytes_nth write_bytes_apply)

lemma read_bytes_numeral:
  "read_bytes m a (numeral k) = m a # read_bytes m (a + 1) (pred_numeral k)"
  by (simp add: numeral_eq_Suc)

lemma le_value_bounds: "0 \<le> le_value cs \<and> le_value cs < 256 ^ length cs"
proof (induction cs)
  case Nil
  then show ?case by simp
next
  case (Cons c cs)
  have "(of_char c :: int) mod 256 = of_char c"
    by simp
  then have "0 \<le> (of_char c :: int) \<and> (of_char c :: int) < 256"
    using pos_mod_sign[of 256 "of_char c :: int"] pos_mod_bound[of 256 "of_char c :: int"] by simp
  with Cons show ?case by simp
qed

lemma load_int_cong:
  "(\<And>x. a \<le> x \<Longrightarrow> x < a + 4 \<Longrightarrow> m x = m' x) \<Longrightarrow> load_int m a = load_int m' a"
  using read_bytes_cong[of a 4 m m'] by (simp add: load_int_def)

lemma load_ptr_cong:
  "(\<And>x. a \<le> x \<Longrightarrow> x < a + 8 \<Longrightarrow> m x = m' x) \<Longrightarrow> load_ptr m a = load_ptr m' a"
  using read_bytes_cong[of a 8 m m'] by (simp add: load_ptr_def)

lemma load_int_store_int:
  assumes "- 2147483648 \<le> v" "v < 2147483648"
  shows "load_int (store_int m a v) a = v"
proof -
  have "read_bytes (store_int m a v) a 4 = le_bytes 4 v"
    using read_write_bytes_same[of m a "le_bytes 4 v"] by (simp add: store_int_def)
  then have "le_value (read_bytes (store_int m a v) a 4) = v mod 4294967296"
    by (simp add: le_value_le_bytes)
  moreover have "v mod 4294967296 = (if 0 \<le> v then v else v + 4294967296)"
  proof (cases "0 \<le> v")
    case True
    with assms show ?thesis by simp
  next
    case False
    with assms have "(v + 4294967296) mod 4294967296 = v + 4294967296"
      by (intro mod_pos_pos_trivial) simp_all
    with False show ?thesis by simp
  qed
  ultimately show ?thesis
    using assms by (simp add: load_int_def Let_def)
qed

lemma load_ptr_store_ptr:
  assumes "0 \<le> p" "p < 18446744073709551616"
  shows "load_ptr (store_ptr m a p) a = p"
proof -
  have "read_bytes (store_ptr m a p) a 8 = le_bytes 8 p"
    using read_write_bytes_same[of m a "le_bytes 8 p"] by (simp add: store_ptr_def)
  then have "load_ptr (store_ptr m a p) a = p mod 18446744073709551616"
    by (simp add: load_ptr_def le_value_le_bytes)
  with assms show ?thesis by simp
qed

lemma store_int_other: "x < a \<or> a + 4 \<le> x \<Longrightarrow> store_int m a v x = m x"
  by (auto simp add: store_int_def write_bytes_apply)

lemma store_ptr_other: "x < a \<or> a + 8 \<le> x \<Longrightarrow> store_ptr m a v x = m x"
  by (auto simp add: store_ptr_def write_bytes_apply)

lemma load_int_range: "- 2147483648 \<le> load_int m a \<and> load_int m a < 2147483648"
  using le_value_bounds[of "read_bytes m a 4"] by (auto simp add: load_int_def Let_def)

lemma ALIGN_PTR_8: "ALIGN_PTR p 8 = (p + 7) div 8 * 8"
proof -
  have "ALIGN_PTR p 8 = (p + 7) AND NOT 7"
    by (simp add: ALIGN_PTR_def)
  also have "\<dots> = (p + 7) div 8 * 8"
    by (rule and_not7)
  finally show ?thesis .
qed

lemma ALIGN_PTR_8_bounds: "p \<le> ALIGN_PTR p 8 \<and> ALIGN_PTR p 8 \<le> p + 7 \<and> ALIGN_PTR p 8 mod 8 = 0"
  unfolding ALIGN_PTR_8 by presburger

lemma ALIGN_PTR_8_id: "p mod 8 = 0 \<Longrightarrow> ALIGN_PTR p 8 = p"
  unfolding ALIGN_PTR_8 by presburger

subsection \<open>Evaluating on concrete inputs\<close>

lemma char_of_int_eval:
  "char_of (v::int) = Char (odd v) (odd (v div 2)) (odd (v div 4)) (odd (v div 8))
     (odd (v div 16)) (odd (v div 32)) (odd (v div 64)) (odd (v div 128))"
  by (simp add: char_of_def bit_iff_odd)

lemma store_int_unfold:
  "store_int m a v = m(a := char_of v, a + 1 := char_of (v div 256),
     a + 2 := char_of (v div 256 div 256), a + 3 := char_of (v div 256 div 256 div 256))"
  by (simp add: store_int_def numeral_eq_Suc add.assoc)

lemma store_ptr_unfold:
  "store_ptr m a v = m(a := char_of v, a + 1 := char_of (v div 256),
         a + 2 := char_of (v div 256 div 256),
         a + 3 := char_of (v div 256 div 256 div 256),
         a + 4 := char_of (v div 256 div 256 div 256 div 256),
         a + 5 := char_of (v div 256 div 256 div 256 div 256 div 256),
         a + 6 := char_of (v div 256 div 256 div 256 div 256 div 256 div 256),
         a + 7 := char_of (v div 256 div 256 div 256 div 256 div 256 div 256 div 256))"
  by (simp add: store_ptr_def numeral_eq_Suc add.assoc)

lemma load_int_unfold:
  "load_int m a =
     (let u = of_char (m a) + 256 * (of_char (m (a + 1)) + 256 * (of_char (m (a + 2))
                + 256 * of_char (m (a + 3))))
      in if u < 2147483648 then u else u - 4294967296)"
  by (simp add: load_int_def numeral_eq_Suc add.assoc)

lemma load_ptr_unfold:
  "load_ptr m a = of_char (m a) + 256 * (of_char (m (a + 1)) + 256 * (of_char (m (a + 2))
     + 256 * (of_char (m (a + 3)) + 256 * (of_char (m (a + 4)) + 256 * (of_char (m (a + 5))
     + 256 * (of_char (m (a + 6)) + 256 * (of_char (m (a + 7)))))))))"
  by (simp add: load_ptr_def numeral_eq_Suc add.assoc)

lemmas eval_defs = logger_create_def page_init_def page_init_loop.simps page_init_step_def
  LOGGER_ALLOC_SIZE_def LOGGER_BLOCK_SIZE_def LOGGER_SIZE_BASE_def BUFFER_ALIGNMENT_def
  sizeof_page_list_def alignof_page_list_def ALIGN_PTR_def int_of_size_t_def
  store_int_unfold load_int_unfold store_ptr_unfold load_ptr_unfold read_bytes_numeral
  page_type_def page_remaining_def page_buffer_def set_page_type_def set_page_remaining_def
  set_page_buffer_def page_buffer_size_def total_pages_def logger_page_add_def
  add_data_at_def logger_add_data_helper_def logger_save_to_page_def logger_save_to_page_line_def
  logger_set_page_type_def logger_get_page_buffer_def logger_clear_page_def logger_clear_all_def
  memcpy_def memset_def strlen_def NUL_def Let_def char_of_int_eval
  remaining_list_def type_list_def buffer_list_def c_string_def fresh_def mallocv_at_def

subsection \<open>Layout arithmetic\<close>

lemma LOGGER_BLOCK_SIZE_eq: "LOGGER_BLOCK_SIZE cap = 32 + (cap + 7) div 8 * 8"
  by (simp add: LOGGER_BLOCK_SIZE_def sizeof_page_list_def alignof_page_list_def
      BUFFER_ALIGNMENT_def ALIGN_PTR_8)

lemma LOGGER_BLOCK_SIZE_bounds:
  "cap + 32 \<le> LOGGER_BLOCK_SIZE cap \<and> LOGGER_BLOCK_SIZE cap \<le> cap + 39 \<and>
   LOGGER_BLOCK_SIZE cap mod 8 = 0"
  unfolding LOGGER_BLOCK_SIZE_eq by presburger

lemma page_addr_eq:
  "page_addr logger cap i = (logger + 47) div 8 * 8 + i * LOGGER_BLOCK_SIZE cap"
  by (simp add: page_addr_def LOGGER_SIZE_BASE_def alignof_page_list_def ALIGN_PTR_8)

lemma page_addr_after_header: "0 \<le> cap \<Longrightarrow> 0 \<le> i \<Longrightarrow> logger + 40 \<le> page_addr logger cap i"
proof -
  assume "0 \<le> cap" "0 \<le> i"
  then have "0 \<le> i * LOGGER_BLOCK_SIZE cap"
    using LOGGER_BLOCK_SIZE_bounds[of cap] by simp
  moreover have "logger + 40 \<le> (logger + 47) div 8 * 8"
    by presburger
  ultimately show ?thesis by (simp add: page_addr_eq)
qed

lemma page_addr_apart:
  assumes "0 \<le> cap" "i < j"
  shows "page_addr logger cap i + LOGGER_BLOCK_SIZE cap \<le> page_addr logger cap j"
proof -
  have "0 \<le> LOGGER_BLOCK_SIZE cap"
    using LOGGER_BLOCK_SIZE_bounds[of cap] assms by simp
  moreover have "i + 1 \<le> j" using assms by simp
  ultimately have "(i + 1) * LOGGER_BLOCK_SIZE cap \<le> j * LOGGER_BLOCK_SIZE cap"
    by (rule mult_right_mono[rotated])
  then show ?thesis by (simp add: page_addr_eq algebra_simps)
qed

lemma page_addr_inj: "0 \<le> cap \<Longrightarrow> page_addr logger cap i = page_addr logger cap j \<Longrightarrow> i = j"
  using page_addr_apart[of cap i j logger] page_addr_apart[of cap j i logger]
    LOGGER_BLOCK_SIZE_bounds[of cap]
  by (cases "i < j"; cases "j < i") auto

subsection \<open>Traversal\<close>

lemma entry_at_eq:
  "entry_at xs k t = (if k \<le> t \<and> t < k + int (length xs) then Some (xs ! nat (t - k)) else None)"
proof (induction xs arbitrary: k)
  case Nil
  then show ?case by auto
next
  case (Cons x xs)
  have "k < t \<Longrightarrow> nat (t - k) = Suc (nat (t - (k + 1)))"
    by arith
  then show ?case by (auto simp add: Cons.IH)
qed

lemma entry_down_eq:
  "entry_down xs t = (if 0 \<le> t \<and> t < int (length xs) then Some (xs ! nat t) else None)"
proof (induction xs arbitrary: t)
  case Nil
  then show ?case by auto
next
  case (Cons x xs)
  have "0 < t \<Longrightarrow> nat t = Suc (nat (t - 1))"
    by arith
  then show ?case by (auto simp add: Cons.IH)
qed

lemma entries_nth:
  "0 \<le> i \<Longrightarrow> i < n \<Longrightarrow> map f [0..n - 1] ! nat i = f i"
  by simp

lemma entries_length: "0 \<le> n \<Longrightarrow> int (length (map f [0..n - 1])) = n"
  by simp

subsection \<open>Fields and the bytes they occupy\<close>

lemma load_int_upd: "x < a \<or> a + 4 \<le> x \<Longrightarrow> load_int (m(x := c)) a = load_int m a"
  by (rule load_int_cong) auto

lemma load_ptr_upd: "x < a \<or> a + 8 \<le> x \<Longrightarrow> load_ptr (m(x := c)) a = load_ptr m a"
  by (rule load_ptr_cong) auto

lemma load_int_write_bytes:
  "b + int (length bs) \<le> a \<or> a + 4 \<le> b \<Longrightarrow> load_int (write_bytes m b bs) a = load_int m a"
  by (rule load_int_cong) (auto simp add: write_bytes_apply)

lemma load_ptr_write_bytes:
  "b + int (length bs) \<le> a \<or> a + 8 \<le> b \<Longrightarrow> load_ptr (write_bytes m b bs) a = load_ptr m a"
  by (rule load_ptr_cong) (auto simp add: write_bytes_apply)

lemma load_int_store_int_other:
  "b + 4 \<le> a \<or> a + 4 \<le> b \<Longrightarrow> load_int (store_int m b v) a = load_int m a"
  by (simp add: store_int_def load_int_write_bytes)

lemma load_ptr_store_int_other:
  "b + 4 \<le> a \<or> a + 8 \<le> b \<Longrightarrow> load_ptr (store_int m b v) a = load_ptr m a"
  by (simp add: store_int_def load_ptr_write_bytes)

lemma load_int_store_ptr_other:
  "b + 8 \<le> a \<or> a + 4 \<le> b \<Longrightarrow> load_int (store_ptr m b v) a = load_int m a"
  by (simp add: store_ptr_def load_int_write_bytes)

lemma load_ptr_store_ptr_other:
  "b + 8 \<le> a \<or> a + 8 \<le> b \<Longrightarrow> load_ptr (store_ptr m b v) a = load_ptr m a"
  by (simp add: store_ptr_def load_ptr_write_bytes)

subsection \<open>The write in closed form\<close>

lemma add_data_at_eq:
  assumes pb: "page_buffer (mem w) p = p + 32"
    and r0: "0 \<le> page_remaining (mem w) p"
    and rc: "page_remaining (mem w) p \<le> page_buffer_size (mem w) logger"
    and s: "s = min sz (page_remaining (mem w) p)"
    and s0: "0 \<le> s" and sl: "s \<le> int (length data)"
  shows "add_data_at w logger p data sz endc =
     Inr (s, w\<lparr>mem := written (mem w) p (page_buffer_size (mem w) logger)
                         (page_remaining (mem w) p) s endc data\<rparr>)"
proof -
  let ?m = "mem w"
  let ?rem = "page_remaining ?m p"
  let ?cap = "page_buffer_size ?m logger"
  let ?a1 = "p + 32 + (?cap - ?rem + s)"
  let ?a2 = "p + 32 + (?cap - ?rem + s + 1)"
  have a1: "p + 32 \<le> ?a1" and a2: "p + 32 \<le> ?a2"
    using r0 rc s0 by simp_all
  have sz: "(if sz > ?rem then ?rem else sz) = s"
    using s by (simp add: min_def)
  have pb1: "page_buffer (?m(?a1 := c)) p = p + 32" for c
    using pb a1 by (simp only: page_buffer_def) (simp add: load_ptr_upd)
  have pb2: "page_buffer (?m(?a1 := c, ?a2 := d)) p = p + 32" for c d
    using pb a1 a2 by (simp only: page_buffer_def) (simp add: load_ptr_upd)
  have r1: "page_remaining (?m(?a1 := c)) p = ?rem" for c
    using a1 by (simp only: page_remaining_def) (simp add: load_int_upd)
  have r2: "page_remaining (?m(?a1 := c, ?a2 := d)) p = ?rem" for c d
    using a1 a2 by (simp only: page_remaining_def) (simp add: load_int_upd)
  have pb3: "page_buffer (set_page_remaining m' p v) p = page_buffer m' p" for m' v
    by (simp add: page_buffer_def set_page_remaining_def load_ptr_store_int_other)
  have mc: "memcpy m' d data s = Inr (write_bytes m' d (take (nat s) data))" for m' d
    using s0 sl by (simp add: memcpy_def)
  show ?thesis
  proof (cases "endc = NUL")
    case True
    then show ?thesis
      by (simp only: add_data_at_def written_def Let_def sz pb pb1 pb3 r1 mc
          if_False if_True sum.case prod.case simp_thms)
  next
    case False
    then show ?thesis
      by (simp only: add_data_at_def written_def Let_def sz pb pb1 pb2 pb3 r1 r2 mc
          if_False if_True sum.case prod.case simp_thms)
  qed
qed

lemma written_apply:
  assumes "0 \<le> s" "s \<le> int (length data)" "rem \<le> cap"
  shows "written m p cap rem s endc data x =
     (if p + 32 + (cap - rem) \<le> x \<and> x < p + 32 + (cap - rem) + s
        then data ! nat (x - (p + 32 + (cap - rem)))
      else if p + 4 \<le> x \<and> x < p + 8
        then le_bytes 4 (rem - (if endc \<noteq> NUL then s + 1 else s)) ! nat (x - (p + 4))
      else if x = p + 32 + (cap - rem) + s then endc
      else if endc \<noteq> NUL \<and> x = p + 32 + (cap - rem) + s + 1 then NUL
      else m x)"
proof -
  have len: "int (length (take (nat s) data)) = s"
    using assms by simp
  have nth: "p + 32 + (cap - rem) \<le> x \<Longrightarrow> x < p + 32 + (cap - rem) + s \<Longrightarrow>
      take (nat s) data ! nat (x - (p + 32 + (cap - rem))) = data ! nat (x - (p + 32 + (cap - rem)))"
    using assms by simp
  show ?thesis
    unfolding written_def set_page_remaining_def store_int_def
    using assms nth by (auto simp add: write_bytes_apply len)
qed

lemma written_frame:
  assumes "0 \<le> s" "s \<le> int (length data)" "rem \<le> cap"
    and "x < p + 4 \<or> (p + 8 \<le> x \<and> x < p + 32 + (cap - rem)) \<or> p + 32 + (cap - rem) + s + 2 \<le> x"
  shows "written m p cap rem s endc data x = m x"
  using assms by (auto simp add: written_apply)

lemma written_payload:
  assumes "0 \<le> s" "s \<le> int (length data)" "rem \<le> cap"
  shows "read_bytes (written m p cap rem s endc data) (p + 32 + (cap - rem)) (nat s) = take (nat s) data"
  using assms by (intro nth_equalityI) (auto simp add: read_bytes_nth written_apply)

lemma read_bytes_append:
  "read_bytes m a (n + k) = read_bytes m a n @ read_bytes m (a + int n) k"
  by (induction n arbitrary: a) (auto simp add: add.assoc)

lemma written_region_line:
  assumes "0 \<le> s" "s \<le> int (length data)" "rem \<le> cap" "endc \<noteq> NUL"
  shows "read_bytes (written m p cap rem s endc data) (p + 32 + (cap - rem)) (nat s + 2)
     = take (nat s) data @ [endc, NUL]"
proof -
  have "read_bytes (written m p cap rem s endc data) (p + 32 + (cap - rem) + int (nat s)) 2
      = [endc, NUL]"
    using assms by (simp add: numeral_2_eq_2 written_apply)
  then show ?thesis
    using assms by (simp only: read_bytes_append written_payload)
qed

lemma written_region_plain:
  assumes "0 \<le> s" "s \<le> int (length data)" "rem \<le> cap"
  shows "read_bytes (written m p cap rem s NUL data) (p + 32 + (cap - rem)) (nat s + 1)
     = take (nat s) data @ [NUL]"
proof -
  have "read_bytes (written m p cap rem s NUL data) (p + 32 + (cap - rem) + int (nat s)) 1
      = [NUL]"
    using assms by (simp add: written_apply)
  then show ?thesis
    using assms by (simp only: read_bytes_append written_payload)
qed

lemma written_remaining:
  assumes "0 \<le> s" "s \<le> int (length data)" "s \<le> rem" "rem \<le> cap" "rem < 2147483648"
  shows "page_remaining (written m p cap rem s endc data) p = rem - (if endc \<noteq> NUL then s + 1 else s)"
proof -
  let ?v = "rem - (if endc \<noteq> NUL then s + 1 else s)"
  let ?m1 = "if endc \<noteq> NUL
           then m(p + 32 + (cap - rem + s) := endc, p + 32 + (cap - rem + s + 1) := NUL)
           else m(p + 32 + (cap - rem + s) := NUL)"
  have "load_int (written m p cap rem s endc data) (p + 4) = load_int (store_int ?m1 (p + 4) ?v) (p + 4)"
    unfolding written_def set_page_remaining_def
    using assms by (intro load_int_write_bytes) auto
  also have "\<dots> = ?v"
    using assms by (intro load_int_store_int) auto
  finally show ?thesis by (simp add: page_remaining_def)
qed

subsection \<open>Well-formed loggers: lookup\<close>

lemma well_formedD:
  assumes "well_formed w logger"
  shows "2 \<le> page_buffer_size (mem w) logger" and "0 < total_pages (mem w) logger"
    and "page_entries w = map (page_addr logger (page_buffer_size (mem w) logger))
           [0..total_pages (mem w) logger - 1]"
    and "int (length (page_entries w)) = total_pages (mem w) logger"
    and "\<And>p. p \<in> set (page_entries w) \<Longrightarrow> page_buffer (mem w) p = p + 32"
    and "\<And>p. p \<in> set (page_entries w) \<Longrightarrow> - 1 \<le> page_remaining (mem w) p"
    and "\<And>p. p \<in> set (page_entries w) \<Longrightarrow>
           page_remaining (mem w) p \<le> page_buffer_size (mem w) logger"
  using assms by (simp_all add: well_formed_def Let_def sizeof_page_list_def)

lemma entry_at_well_formed:
  assumes "well_formed w logger"
  shows "entry_at (page_entries w) 0 index =
     (if 0 \<le> index \<and> index < total_pages (mem w) logger
      then Some (page_addr logger (page_buffer_size (mem w) logger) index) else None)"
proof -
  have "0 \<le> index \<Longrightarrow> index < total_pages (mem w) logger \<Longrightarrow>
      page_entries w ! nat index = page_addr logger (page_buffer_size (mem w) logger) index"
    using well_formedD(3)[OF assms] by (simp add: entries_nth)
  then show ?thesis
    using well_formedD(4)[OF assms] by (simp add: entry_at_eq)
qed

lemma entry_down_well_formed:
  assumes "well_formed w logger"
  shows "entry_down (page_entries w) index = entry_at (page_entries w) 0 index"
  by (simp add: entry_at_eq entry_down_eq)

lemma entry_at_in_set: "entry_at xs k t = Some p \<Longrightarrow> p \<in> set xs"
  by (auto simp add: entry_at_eq split: if_splits)

lemma remaining_int_range: "page_remaining m p < 2147483648"
  using load_int_range[of m "p + 4"] by (simp add: page_remaining_def)

text \<open>The write routine on a page that exists and is not overdrawn.\<close>

lemma helper_eq:
  assumes wf: "well_formed w logger"
    and p: "entry_at (page_entries w) 0 index = Some p"
    and r0: "0 \<le> page_remaining (mem w) p"
    and n: "(if sz \<le> 0 then map_option int_of_size_t (strlen data) else Some sz) = Some n"
    and n0: "0 \<le> n"
    and len: "min n (page_remaining (mem w) p) \<le> int (length data)"
  shows "logger_add_data_helper w logger data sz index endc =
     Inr (min n (page_remaining (mem w) p),
          w\<lparr>mem := written (mem w) p (page_buffer_size (mem w) logger)
             (page_remaining (mem w) p) (min n (page_remaining (mem w) p)) endc data\<rparr>)"
    and "0 \<le> min n (page_remaining (mem w) p)"
proof -
  have mem: "p \<in> set (page_entries w)"
    using p by (rule entry_at_in_set)
  have idx: "index < total_pages (mem w) logger \<and> 0 \<le> index"
    using p entry_at_well_formed[OF wf, of index] by (simp split: if_splits)
  show s0: "0 \<le> min n (page_remaining (mem w) p)"
    using n0 r0 by simp
  have "add_data_at w logger p data n endc =
     Inr (min n (page_remaining (mem w) p),
          w\<lparr>mem := written (mem w) p (page_buffer_size (mem w) logger)
             (page_remaining (mem w) p) (min n (page_remaining (mem w) p)) endc data\<rparr>)"
    using well_formedD(5)[OF wf mem] r0 well_formedD(7)[OF wf mem] s0 len
    by (intro add_data_at_eq) simp_all
  then show "logger_add_data_helper w logger data sz index endc =
     Inr (min n (page_remaining (mem w) p),
          w\<lparr>mem := written (mem w) p (page_buffer_size (mem w) logger)
             (page_remaining (mem w) p) (min n (page_remaining (mem w) p)) endc data\<rparr>)"
    using idx n p by (simp add: logger_add_data_helper_def)
qed

subsection \<open>Reading off the result of a run\<close>

lemma result_caseD:
  "(case r of Inl f \<Rightarrow> False | Inr (a, b) \<Rightarrow> P a b) \<Longrightarrow> \<exists>a b. r = Inr (a, b) \<and> P a b"
  by (cases r) auto

lemma created_caseD:
  "(case r of Inl f \<Rightarrow> False | Inr (None, w) \<Rightarrow> False | Inr (Some l, w) \<Rightarrow> P l w) \<Longrightarrow>
     \<exists>l w. r = Inr (Some l, w) \<and> P l w"
  by (cases r) (auto split: option.splits)

lemma fault_caseD:
  "(case r of Inl f \<Rightarrow> f = e | Inr x \<Rightarrow> False) \<Longrightarrow> r = Inl e"
  by (cases r) auto

subsection \<open>The example logger\<close>

lemma example_logger_run:
  "case logger_create (mallocv_at 4096) (fresh (\<lambda>a. CHR ''?'')) 2 8 of
     Inl f \<Rightarrow> False
   | Inr (None, w) \<Rightarrow> False
   | Inr (Some l, w) \<Rightarrow>
       l = 4096 \<and> well_formed w 4096 \<and> page_entries w = [4136, 4176] \<and>
       page_buffer_size (mem w) 4096 = 8 \<and> total_pages (mem w) 4096 = 2 \<and>
       remaining_list w = [8, 8] \<and> type_list w = [0, 0] \<and>
       page_remaining (mem w) 4136 = 8 \<and> page_remaining (mem w) 4176 = 8 \<and>
       page_buffer (mem w) 4136 = 4168 \<and> page_buffer (mem w) 4176 = 4208"
  by code_simp

lemma example_logger_created:
  "logger_create (mallocv_at 4096) (fresh (\<lambda>a. CHR ''?'')) 2 8 = Inr (Some 4096, example_logger)"
proof -
  from example_logger_run[THEN created_caseD]
  obtain l w where "logger_create (mallocv_at 4096) (fresh (\<lambda>a. CHR ''?'')) 2 8 = Inr (Some l, w)"
    and "l = 4096"
    by blast
  then show ?thesis
    by (simp add: example_logger_def)
qed

lemma example_logger_facts:
  shows example_logger_well_formed: "well_formed example_logger 4096"
    and example_logger_entries: "page_entries example_logger = [4136, 4176]"
    and example_logger_cap: "page_buffer_size (mem example_logger) 4096 = 8"
    and example_logger_pages: "total_pages (mem example_logger) 4096 = 2"
    and example_logger_remaining: "remaining_list example_logger = [8, 8]"
    and example_logger_types: "type_list example_logger = [0, 0]"
    and example_logger_rem0: "page_remaining (mem example_logger) 4136 = 8"
    and example_logger_rem1: "page_remaining (mem example_logger) 4176 = 8"
    and example_logger_buf0: "page_buffer (mem example_logger) 4136 = 4168"
    and example_logger_buf1: "page_buffer (mem example_logger) 4176 = 4208"
proof -
  from example_logger_run
  have "(4096::int) = 4096 \<and> well_formed example_logger 4096 \<and>
       page_entries example_logger = [4136, 4176] \<and>
       page_buffer_size (mem example_logger) 4096 = 8 \<and>
       total_pages (mem example_logger) 4096 = 2 \<and>
       remaining_list example_logger = [8, 8] \<and> type_list example_logger = [0, 0] \<and>
       page_remaining (mem example_logger) 4136 = 8 \<and>
       page_remaining (mem example_logger) 4176 = 8 \<and>
       page_buffer (mem example_logger) 4136 = 4168 \<and>
       page_buffer (mem example_logger) 4176 = 4208"
    by (simp only: example_logger_created sum.case prod.case option.case)
  then show "well_formed example_logger 4096"
    and "page_entries example_logger = [4136, 4176]"
    and "page_buffer_size (mem example_logger) 4096 = 8"
    and "total_pages (mem example_logger) 4096 = 2"
    and "remaining_list example_logger = [8, 8]"
    and "type_list example_logger = [0, 0]"
    and "page_remaining (mem example_logger) 4136 = 8"
    and "page_remaining (mem example_logger) 4176 = 8"
    and "page_buffer (mem example_logger) 4136 = 4168"
    and "page_buffer (mem example_logger) 4176 = 4208"
    by blast+
qed

subsection \<open>The example logger with a tagged page\<close>

lemma example_tagged_run:
  "case logger_create (mallocv_at 4096) (fresh (\<lambda>a. CHR ''?'')) 2 8 of
     Inl f \<Rightarrow> False
   | Inr (None, w) \<Rightarrow> False
   | Inr (Some l, w) \<Rightarrow>
       (case logger_set_page_type w l 0 PAGE_TYPE_WARNING of
          (r, w1) \<Rightarrow> r = 0 \<and> well_formed w1 4096 \<and> page_entries w1 = [4136, 4176] \<and>
            page_buffer_size (mem w1) 4096 = 8 \<and> type_list w1 = [3, 0] \<and>
            page_type (mem w1) 4136 = 3 \<and>
            (case logger_clear_page w1 l 0 of
               Inl f \<Rightarrow> False
             | Inr w2 \<Rightarrow> type_list w2 = [0, 0]))"
  by code_simp

lemma example_tagged_facts:
  shows example_tagged_well_formed: "well_formed example_tagged 4096"
    and example_tagged_entries: "page_entries example_tagged = [4136, 4176]"
    and example_tagged_cap: "page_buffer_size (mem example_tagged) 4096 = 8"
    and example_tagged_types: "type_list example_tagged = [3, 0]"
    and example_tagged_type0: "page_type (mem example_tagged) 4136 = 3"
    and example_tagged_cleared:
      "case logger_clear_page example_tagged 4096 0 of
         Inl f \<Rightarrow> False
       | Inr w2 \<Rightarrow> type_list w2 = [0, 0]"
proof -
  from example_tagged_run
  have "case logger_set_page_type example_logger 4096 0 PAGE_TYPE_WARNING of
          (r, w1) \<Rightarrow> r = 0 \<and> well_formed w1 4096 \<and> page_entries w1 = [4136, 4176] \<and>
            page_buffer_size (mem w1) 4096 = 8 \<and> type_list w1 = [3, 0] \<and>
            page_type (mem w1) 4136 = 3 \<and>
            (case logger_clear_page w1 4096 0 of
               Inl f \<Rightarrow> False
             | Inr w2 \<Rightarrow> type_list w2 = [0, 0])"
    by (simp only: example_logger_created sum.case prod.case option.case)
  then have "well_formed example_tagged 4096 \<and> page_entries example_tagged = [4136, 4176] \<and>
      page_buffer_size (mem example_tagged) 4096 = 8 \<and> type_list example_tagged = [3, 0] \<and>
      page_type (mem example_tagged) 4136 = 3 \<and>
      (case logger_clear_page example_tagged 4096 0 of
         Inl f \<Rightarrow> False
       | Inr w2 \<Rightarrow> type_list w2 = [0, 0])"
    unfolding example_tagged_def
    by (cases "logger_set_page_type example_logger 4096 0 PAGE_TYPE_WARNING") simp
  then show "well_formed example_tagged 4096"
    and "page_entries example_tagged = [4136, 4176]"
    and "page_buffer_size (mem example_tagged) 4096 = 8"
    and "type_list example_tagged = [3, 0]"
    and "page_type (mem example_tagged) 4136 = 3"
    and "case logger_clear_page example_tagged 4096 0 of
         Inl f \<Rightarrow> False
       | Inr w2 \<Rightarrow> type_list w2 = [0, 0]"
    by blast+
qed

subsection \<open>The example logger with a written page\<close>

lemma example_written_run:
  "case logger_create (mallocv_at 4096) (fresh (\<lambda>a. CHR ''?'')) 2 8 of
     Inl f \<Rightarrow> False
   | Inr (None, w) \<Rightarrow> False
   | Inr (Some l, w) \<Rightarrow>
       (case logger_save_to_page w l (''abc'' @ [NUL]) 3 0 of
          Inl f \<Rightarrow> False
        | Inr (r, w1) \<Rightarrow> r = 3 \<and> well_formed w1 4096 \<and> page_entries w1 = [4136, 4176] \<and>
            total_pages (mem w1) 4096 = 2 \<and> page_buffer_size (mem w1) 4096 = 8 \<and>
            read_bytes (mem w1) 4170 6 = CHR ''c'' # NUL # ''????'' \<and>
            read_bytes (mem w1) 4210 6 = ''??????'')"
  by code_simp

lemma example_written_facts:
  shows example_written_well_formed: "well_formed example_written 4096"
    and example_written_entries: "page_entries example_written = [4136, 4176]"
    and example_written_pages: "total_pages (mem example_written) 4096 = 2"
    and example_written_cap: "page_buffer_size (mem example_written) 4096 = 8"
    and example_written_tail0: "read_bytes (mem example_written) 4170 6 = CHR ''c'' # NUL # ''????''"
    and example_written_tail1: "read_bytes (mem example_written) 4210 6 = ''??????''"
proof -
  from example_written_run
  have "case logger_save_to_page example_logger 4096 (''abc'' @ [NUL]) 3 0 of
          Inl f \<Rightarrow> False
        | Inr (r, w1) \<Rightarrow> r = 3 \<and> well_formed w1 4096 \<and> page_entries w1 = [4136, 4176] \<and>
            total_pages (mem w1) 4096 = 2 \<and> page_buffer_size (mem w1) 4096 = 8 \<and>
            read_bytes (mem w1) 4170 6 = CHR ''c'' # NUL # ''????'' \<and>
            read_bytes (mem w1) 4210 6 = ''??????''"
    by (simp only: example_logger_created sum.case prod.case option.case)
  from this[THEN result_caseD]
  obtain r w1 where "logger_save_to_page example_logger 4096 (''abc'' @ [NUL]) 3 0 = Inr (r, w1)"
    and "well_formed w1 4096 \<and> page_entries w1 = [4136, 4176] \<and>
            total_pages (mem w1) 4096 = 2 \<and> page_buffer_size (mem w1) 4096 = 8 \<and>
            read_bytes (mem w1) 4170 6 = CHR ''c'' # NUL # ''????'' \<and>
            read_bytes (mem w1) 4210 6 = ''??????''"
    by blast
  then have "well_formed example_written 4096 \<and> page_entries example_written = [4136, 4176] \<and>
            total_pages (mem example_written) 4096 = 2 \<and>
            page_buffer_size (mem example_written) 4096 = 8 \<and>
            read_bytes (mem example_written) 4170 6 = CHR ''c'' # NUL # ''????'' \<and>
            read_bytes (mem example_written) 4210 6 = ''??????''"
    by (simp add: example_written_def)
  then show "well_formed example_written 4096"
    and "page_entries example_written = [4136, 4176]"
    and "total_pages (mem example_written) 4096 = 2"
    and "page_buffer_size (mem example_written) 4096 = 8"
    and "read_bytes (mem example_written) 4170 6 = CHR ''c'' # NUL # ''????''"
    and "read_bytes (mem example_written) 4210 6 = ''??????''"
    by blast+
qed

subsection \<open>Creation\<close>

lemma page_fresh_cong:
  assumes "\<And>x. p \<le> x \<Longrightarrow> x < p + 34 \<Longrightarrow> m' x = m x"
  shows "page_fresh m' p cap = page_fresh m p cap"
proof -
  have "page_buffer m' p = page_buffer m p"
    unfolding page_buffer_def by (rule load_ptr_cong) (simp add: assms)
  moreover have "page_remaining m' p = page_remaining m p"
    unfolding page_remaining_def by (rule load_int_cong) (simp add: assms)
  moreover have "page_type m' p = page_type m p"
    unfolding page_type_def by (rule load_int_cong) (simp add: assms)
  ultimately show ?thesis
    by (simp add: page_fresh_def assms)
qed

lemma page_init_step_eq:
  assumes al: "memory mod 8 = 0" "block_size mod 8 = 0"
    and rng: "0 \<le> memory + i * block_size"
      "memory + i * block_size + 32 + page_size < 18446744073709551616"
    and cap: "0 \<le> page_size" "page_size < 2147483648"
  shows "\<exists>m'. page_init_step w memory memory_end block_size page_size i =
       (if memory + i * block_size + 32 + page_size \<le> memory_end
        then Inr \<lparr>mem = m', page_entries = page_entries w @ [memory + i * block_size]\<rparr>
        else Inl AssertFailed) \<and>
     page_fresh m' (memory + i * block_size) page_size \<and>
     (\<forall>x. x < memory + i * block_size \<or> memory + i * block_size + 34 \<le> x \<longrightarrow> m' x = mem w x)"
proof -
  let ?p = "memory + i * block_size"
  have "8 dvd memory" "8 dvd block_size"
    using al by (simp_all add: mod_eq_0_iff_dvd)
  then have "8 dvd ?p"
    by simp
  then have p8: "?p mod 8 = 0"
    by (simp add: mod_eq_0_iff_dvd)
  have np: "ALIGN_PTR ?p alignof_page_list = ?p"
    using p8 by (simp add: alignof_page_list_def ALIGN_PTR_8_id)
  have "(?p + 32) mod 8 = 0"
    using p8 by presburger
  then have bs: "ALIGN_PTR (?p + sizeof_page_list) BUFFER_ALIGNMENT = ?p + 32"
    by (simp add: sizeof_page_list_def BUFFER_ALIGNMENT_def ALIGN_PTR_8_id)
  let ?m1 = "set_page_buffer (mem w) ?p (?p + 32)"
  let ?m2 = "?m1(?p + 32 + 0 := NUL)"
  let ?m3 = "?m2(?p + 32 + 1 := NUL)"
  let ?m4 = "set_page_remaining ?m3 ?p page_size"
  let ?m5 = "set_page_type ?m4 ?p (enum_value PAGE_TYPE_DEFAULT)"
  have b1: "page_buffer ?m1 ?p = ?p + 32"
    using rng cap by (simp add: page_buffer_def set_page_buffer_def load_ptr_store_ptr)
  have be: "uintptr_t (?p + 32 + page_size) = ?p + 32 + page_size"
    using rng cap by (simp add: uintptr_t_def)
  have b2: "page_buffer ?m2 ?p = ?p + 32"
    using b1 by (simp add: page_buffer_def load_ptr_upd)
  have b3: "page_buffer ?m3 ?p = ?p + 32"
    using b2 by (simp add: page_buffer_def load_ptr_upd)
  have b5: "page_buffer ?m5 ?p = ?p + 32"
    using b3 by (simp add: page_buffer_def set_page_remaining_def set_page_type_def
        load_ptr_store_int_other)
  have r5: "page_remaining ?m5 ?p = page_size"
    using cap by (simp add: page_remaining_def set_page_remaining_def set_page_type_def
        load_int_store_int_other load_int_store_int)
  have t5: "page_type ?m5 ?p = enum_value PAGE_TYPE_DEFAULT"
    by (simp add: page_type_def set_page_type_def load_int_store_int)
  have z5: "?m5 (?p + 32) = NUL" "?m5 (?p + 33) = NUL"
    by (simp_all add: set_page_remaining_def set_page_type_def store_int_other)
  have fr: "x < ?p \<or> ?p + 34 \<le> x \<Longrightarrow> ?m5 x = mem w x" for x
    by (auto simp add: set_page_remaining_def set_page_type_def set_page_buffer_def
        store_int_other store_ptr_other)
  have "page_init_step w memory memory_end block_size page_size i =
       (if ?p + 32 + page_size \<le> memory_end
        then Inr \<lparr>mem = ?m5, page_entries = page_entries w @ [?p]\<rparr>
        else Inl AssertFailed)"
    by (simp only: page_init_step_def Let_def np bs b1 b2 b3 b5 be logger_page_add_def)
       simp
  moreover have "page_fresh ?m5 ?p page_size"
    unfolding page_fresh_def using b5 r5 t5 z5 by blast
  ultimately show ?thesis
    using fr by blast
qed


lemma page_init_loop_correct:
  assumes al: "memory mod 8 = 0" "B mod 8 = 0"
    and B: "page_size + 32 \<le> B"
    and ps: "2 \<le> page_size" "page_size < 2147483648"
    and rng: "0 \<le> memory" "memory + n * B < 18446744073709551616"
    and me: "memory + n * B \<le> memory_end"
    and i: "0 \<le> i" "i \<le> n"
  shows "\<exists>m'. page_init_loop w memory memory_end B n page_size i =
       Inr \<lparr>mem = m', page_entries = page_entries w @ map (\<lambda>k. memory + k * B) [i..n - 1]\<rparr> \<and>
     (\<forall>k. i \<le> k \<and> k < n \<longrightarrow> page_fresh m' (memory + k * B) page_size) \<and>
     (\<forall>x. x < memory + i * B \<longrightarrow> m' x = mem w x)"
  using i
proof (induction "nat (n - i)" arbitrary: i w)
  case 0
  then have "i = n" by simp
  then show ?case
    by (intro exI[of _ "mem w"]) (auto simp add: page_init_loop.simps)
next
  case (Suc d)
  then have lt: "i < n" and i0: "0 \<le> i" by simp_all
  let ?p = "memory + i * B"
  have B0: "0 \<le> B" using B ps by simp
  have next_p: "memory + (i + 1) * B = ?p + B"
    by (simp add: algebra_simps)
  have "(i + 1) * B \<le> n * B"
    using lt B0 by (intro mult_right_mono) simp_all
  then have top: "?p + B \<le> memory + n * B"
    by (simp add: algebra_simps)
  have p0: "0 \<le> ?p"
    using rng(1) i0 B0 by simp
  obtain m1 where step: "page_init_step w memory memory_end B page_size i =
       Inr \<lparr>mem = m1, page_entries = page_entries w @ [?p]\<rparr>"
    and fresh1: "page_fresh m1 ?p page_size"
    and frame1: "\<And>x. x < ?p \<or> ?p + 34 \<le> x \<Longrightarrow> m1 x = mem w x"
  proof -
    have "?p + 32 + page_size < 18446744073709551616" "?p + 32 + page_size \<le> memory_end"
      using top B rng(2) me by simp_all
    with page_init_step_eq[of memory B i page_size w memory_end] al p0 ps show ?thesis
      using that by auto
  qed
  let ?w1 = "\<lparr>mem = m1, page_entries = page_entries w @ [?p]\<rparr>"
  have "d = nat (n - (i + 1))" "0 \<le> i + 1" "i + 1 \<le> n"
    using Suc.hyps(2) lt i0 by simp_all
  from Suc.hyps(1)[OF this, of ?w1]
  obtain m' where loop: "page_init_loop ?w1 memory memory_end B n page_size (i + 1) =
       Inr \<lparr>mem = m', page_entries = page_entries ?w1 @ map (\<lambda>k. memory + k * B) [i + 1..n - 1]\<rparr>"
    and fresh': "\<And>k. i + 1 \<le> k \<Longrightarrow> k < n \<Longrightarrow> page_fresh m' (memory + k * B) page_size"
    and frame': "\<And>x. x < memory + (i + 1) * B \<Longrightarrow> m' x = mem ?w1 x"
    by auto
  have upto: "[i..n - 1] = i # [i + 1..n - 1]"
    using lt by (simp add: upto_rec1)
  have 1: "page_init_loop w memory memory_end B n page_size i =
       Inr \<lparr>mem = m', page_entries = page_entries w @ map (\<lambda>k. memory + k * B) [i..n - 1]\<rparr>"
    using lt step loop by (subst page_init_loop.simps) (simp add: upto)
  have "page_fresh m' ?p page_size"
  proof -
    have "page_fresh m' ?p page_size = page_fresh m1 ?p page_size"
      using frame' B ps by (intro page_fresh_cong) (simp add: next_p)
    with fresh1 show ?thesis by simp
  qed
  then have 2: "page_fresh m' (memory + k * B) page_size" if "i \<le> k" "k < n" for k
    using that fresh'[of k] by (cases "k = i") auto
  have 3: "m' x = mem w x" if "x < ?p" for x
    using that frame'[of x] frame1[of x] B0 by (simp add: next_p)
  show ?case
    using 1 2 3 by blast
qed

text \<open>When the end computed by \<^verbatim>\<open>page_init\<close> lies below the end of the first buffer, the
  assertion fails for the first page.\<close>

lemma page_init_loop_fault:
  assumes al: "memory mod 8 = 0" "B mod 8 = 0"
    and ps: "0 \<le> page_size" "page_size < 2147483648"
    and rng: "0 \<le> memory" "memory + 32 + page_size < 18446744073709551616"
    and n: "0 < n"
    and me: "memory_end < memory + 32 + page_size"
  shows "page_init_loop w memory memory_end B n page_size 0 = Inl AssertFailed"
proof -
  from page_init_step_eq[of memory B 0 page_size w memory_end] al ps rng me
  have "page_init_step w memory memory_end B page_size 0 = Inl AssertFailed"
    by auto
  then show ?thesis
    using n by (subst page_init_loop.simps) simp
qed

lemma int_of_size_t_id: "int_of_size_t n = n \<longleftrightarrow> - 2147483648 \<le> n \<and> n < 2147483648"
proof
  assume "int_of_size_t n = n"
  then have "(n + 2147483648) mod 4294967296 = n + 2147483648"
    by (simp add: int_of_size_t_def)
  moreover have "0 \<le> (n + 2147483648) mod 4294967296"
    "(n + 2147483648) mod 4294967296 < 4294967296"
    by simp_all
  ultimately show "- 2147483648 \<le> n \<and> n < 2147483648"
    by simp
next
  assume "- 2147483648 \<le> n \<and> n < 2147483648"
  then have "(n + 2147483648) mod 4294967296 = n + 2147483648"
    by (intro mod_pos_pos_trivial) simp_all
  then show "int_of_size_t n = n"
    by (simp add: int_of_size_t_def)
qed

lemma logger_create_success:
  assumes pa: "0 < page_amount" and ps: "0 < page_size"
    and cap: "cap = max page_size 2"
    and fits: "int_of_size_t (LOGGER_ALLOC_SIZE page_amount cap) = LOGGER_ALLOC_SIZE page_amount cap"
    and al: "mallocv (int_of_size_t (LOGGER_ALLOC_SIZE page_amount cap)) = Some logger"
    and rng: "0 \<le> logger"
      "logger + LOGGER_ALLOC_SIZE page_amount cap \<le> 18446744073709551616"
    and nowrap: "ALIGN_PTR (logger + LOGGER_SIZE_BASE) alignof_page_list
        + (page_amount + 2) * LOGGER_BLOCK_SIZE cap < 18446744073709551616"
  shows "\<exists>w'. logger_create mallocv w page_amount page_size = Inr (Some logger, w') \<and>
     well_formed w' logger \<and>
     page_buffer_size (mem w') logger = cap \<and> total_pages (mem w') logger = page_amount \<and>
     (\<forall>p \<in> set (page_entries w'). page_fresh (mem w') p cap)"
proof -
  let ?B = "LOGGER_BLOCK_SIZE cap"
  let ?M = "ALIGN_PTR (logger + LOGGER_SIZE_BASE) alignof_page_list"
  let ?m1 = "store_int (mem w) logger cap"
  let ?m2 = "store_int ?m1 (logger + 4) page_amount"
  let ?w2 = "w\<lparr>mem := ?m2\<rparr>"
  have cap2: "2 \<le> cap" and cap': "(if page_size < 2 then 2 else page_size) = cap"
    using cap by simp_all
  have Bb: "cap + 32 \<le> ?B" "?B \<le> cap + 39" "?B mod 8 = 0"
    using LOGGER_BLOCK_SIZE_bounds[of cap] by simp_all
  have M: "logger + 40 \<le> ?M" "?M \<le> logger + 47" "?M mod 8 = 0"
    using ALIGN_PTR_8_bounds[of "logger + 40"]
    by (simp_all add: LOGGER_SIZE_BASE_def alignof_page_list_def)
  have MM: "ALIGN_PTR ?M alignof_page_list = ?M"
    using M(3) by (simp add: alignof_page_list_def ALIGN_PTR_8_id)
  have A: "LOGGER_ALLOC_SIZE page_amount cap = 48 + page_amount * ?B"
    by (simp add: LOGGER_ALLOC_SIZE_def LOGGER_SIZE_BASE_def BUFFER_ALIGNMENT_def)
  have small: "page_amount * ?B < 2147483600"
    using fits by (simp add: int_of_size_t_id A)
  have "1 * ?B \<le> page_amount * ?B"
    using pa Bb(1) cap2 by (intro mult_right_mono) simp_all
  then have capr: "cap < 2147483648"
    using small Bb(1) by simp
  have "page_amount * 1 \<le> page_amount * ?B"
    using pa Bb(1) cap2 by (intro mult_left_mono) simp_all
  then have par: "page_amount < 2147483648"
    using small by simp
  have "page_amount * ?B \<le> (page_amount + 2) * ?B"
    using Bb(1) cap2 by (intro mult_right_mono) simp_all
  then have me: "?M + page_amount * ?B \<le> ?M + (page_amount + 2) * ?B"
    by simp
  have top: "?M + page_amount * ?B < 18446744073709551616"
    using rng(2) M(2) by (simp add: A)
  have "0 \<le> ?M" using rng(1) M(1) by simp
  from page_init_loop_correct[OF M(3) Bb(3) Bb(1) cap2 capr this top me, of 0 "?w2\<lparr>page_entries := []\<rparr>"] pa
  obtain m' where loop: "page_init_loop (?w2\<lparr>page_entries := []\<rparr>) ?M (?M + (page_amount + 2) * ?B) ?B
        page_amount cap 0 =
       Inr \<lparr>mem = m', page_entries = map (\<lambda>k. ?M + k * ?B) [0..page_amount - 1]\<rparr>"
    and fresh: "\<And>k. 0 \<le> k \<Longrightarrow> k < page_amount \<Longrightarrow> page_fresh m' (?M + k * ?B) cap"
    and frame: "\<And>x. x < ?M \<Longrightarrow> m' x = ?m2 x"
    by auto
  let ?w' = "\<lparr>mem = m', page_entries = map (\<lambda>k. ?M + k * ?B) [0..page_amount - 1]\<rparr>"
  have "0 \<le> ?M + (page_amount + 2) * ?B"
    using \<open>0 \<le> ?M\<close> pa Bb(1) cap2 by simp
  then have mend: "uintptr_t (?M + (page_amount + 2) * ?B) = ?M + (page_amount + 2) * ?B"
    using nowrap by (simp add: uintptr_t_def)
  have init: "page_init ?w2 ?M page_amount cap = Inr ?w'"
    using loop by (simp add: page_init_def Let_def MM mend)
  have create: "logger_create mallocv w page_amount page_size = Inr (Some logger, ?w')"
    using pa ps al fits init by (simp add: logger_create_def Let_def cap')
  have "load_int m' logger = load_int ?m2 logger"
    using M(1) by (intro load_int_cong frame) simp
  also have "\<dots> = cap"
    using cap2 capr by (simp add: load_int_store_int_other load_int_store_int)
  finally have hc: "page_buffer_size m' logger = cap"
    by (simp add: page_buffer_size_def)
  have "load_int m' (logger + 4) = load_int ?m2 (logger + 4)"
    using M(1) by (intro load_int_cong frame) simp
  also have "\<dots> = page_amount"
    using pa par by (simp add: load_int_store_int)
  finally have hn: "total_pages m' logger = page_amount"
    by (simp add: total_pages_def)
  have fr: "page_fresh m' p cap" if "p \<in> set (page_entries ?w')" for p
    using that fresh by auto
  have ent: "page_entries ?w' = map (page_addr logger cap) [0..page_amount - 1]"
    by (simp add: page_addr_def)
  have "well_formed ?w' logger"
    unfolding well_formed_def Let_def
    using cap2 pa hc hn fr ent by (auto simp add: page_fresh_def sizeof_page_list_def)
  with create hc hn fr show ?thesis
    by (intro exI[of _ ?w']) simp
qed

text \<open>A block so close to the top of the address space that the end computed by
  \<^verbatim>\<open>page_init\<close> wraps around: the assertion fails.\<close>

lemma logger_create_wrapped_end:
  assumes pa: "0 < page_amount" and ps: "0 < page_size"
    and cap: "cap = max page_size 2"
    and fits: "int_of_size_t (LOGGER_ALLOC_SIZE page_amount cap) = LOGGER_ALLOC_SIZE page_amount cap"
    and al: "mallocv (int_of_size_t (LOGGER_ALLOC_SIZE page_amount cap)) = Some logger"
    and rng: "0 \<le> logger"
      "logger + LOGGER_ALLOC_SIZE page_amount cap \<le> 18446744073709551616"
    and wrap: "18446744073709551616 \<le> ALIGN_PTR (logger + LOGGER_SIZE_BASE) alignof_page_list
        + (page_amount + 2) * LOGGER_BLOCK_SIZE cap"
  shows "logger_create mallocv w page_amount page_size = Inl AssertFailed"
proof -
  let ?B = "LOGGER_BLOCK_SIZE cap"
  let ?M = "ALIGN_PTR (logger + LOGGER_SIZE_BASE) alignof_page_list"
  let ?m1 = "store_int (mem w) logger cap"
  let ?m2 = "store_int ?m1 (logger + 4) page_amount"
  let ?w2 = "w\<lparr>mem := ?m2\<rparr>"
  let ?E = "uintptr_t (?M + (page_amount + 2) * ?B)"
  have cap2: "2 \<le> cap" and cap': "(if page_size < 2 then 2 else page_size) = cap"
    using cap by simp_all
  have Bb: "cap + 32 \<le> ?B" "?B \<le> cap + 39" "?B mod 8 = 0"
    using LOGGER_BLOCK_SIZE_bounds[of cap] by simp_all
  have M: "logger + 40 \<le> ?M" "?M \<le> logger + 47" "?M mod 8 = 0"
    using ALIGN_PTR_8_bounds[of "logger + 40"]
    by (simp_all add: LOGGER_SIZE_BASE_def alignof_page_list_def)
  have MM: "ALIGN_PTR ?M alignof_page_list = ?M"
    using M(3) by (simp add: alignof_page_list_def ALIGN_PTR_8_id)
  have A: "LOGGER_ALLOC_SIZE page_amount cap = 48 + page_amount * ?B"
    by (simp add: LOGGER_ALLOC_SIZE_def LOGGER_SIZE_BASE_def BUFFER_ALIGNMENT_def)
  have small: "page_amount * ?B < 2147483600"
    using fits by (simp add: int_of_size_t_id A)
  have "1 * ?B \<le> page_amount * ?B"
    using pa Bb(1) cap2 by (intro mult_right_mono) simp_all
  then have B31: "?B < 2147483600"
    using small by simp
  then have capr: "cap < 2147483648"
    using Bb(1) by simp
  have M0: "0 \<le> ?M"
    using rng(1) M(1) by simp
  have top: "?M + page_amount * ?B < 18446744073709551616"
    using rng(2) M(2) by (simp add: A)
  have "?M + 1 * ?B \<le> ?M + page_amount * ?B"
    using pa Bb(1) cap2 by (intro add_left_mono mult_right_mono) simp_all
  then have first: "?M + 32 + cap < 18446744073709551616"
    using top Bb(1) by simp
  have sum: "?M + (page_amount + 2) * ?B = ?M + page_amount * ?B + 2 * ?B"
    by (simp add: algebra_simps)
  have "?E = (?M + (page_amount + 2) * ?B - 18446744073709551616) mod 18446744073709551616"
    by (simp add: uintptr_t_def)
  also have "\<dots> = ?M + (page_amount + 2) * ?B - 18446744073709551616"
    using wrap top B31 unfolding sum by (intro mod_pos_pos_trivial) linarith+
  also have "\<dots> < ?M + 32 + cap"
    using small B31 cap2 unfolding sum by linarith
  finally have "?E < ?M + 32 + cap" .
  from page_init_loop_fault[OF M(3) Bb(3) _ capr M0 first pa this, of "?w2\<lparr>page_entries := []\<rparr>"] cap2
  have "page_init ?w2 ?M page_amount cap = Inl AssertFailed"
    by (simp add: page_init_def Let_def MM)
  then show ?thesis
    using pa ps al fits by (simp add: logger_create_def Let_def cap')
qed

lemma map_const_replicate: "(\<And>x. x \<in> set xs \<Longrightarrow> f x = c) \<Longrightarrow> map f xs = replicate (length xs) c"
  by (induction xs) auto

lemma c_string_empty: "m a = NUL \<Longrightarrow> 0 < n \<Longrightarrow> c_string m a n = []"
  by (cases n) (simp_all add: c_string_def)

subsection \<open>Pages of a well-formed logger do not overlap\<close>

lemma well_formed_entry:
  assumes "well_formed w logger" "p \<in> set (page_entries w)"
  shows "\<exists>i. 0 \<le> i \<and> i < total_pages (mem w) logger \<and>
     p = page_addr logger (page_buffer_size (mem w) logger) i"
  using assms(2) unfolding well_formedD(3)[OF assms(1)] by auto

lemma well_formed_after_header:
  assumes "well_formed w logger" "p \<in> set (page_entries w)"
  shows "logger + 40 \<le> p"
  using well_formed_entry[OF assms] well_formedD(1)[OF assms(1)]
  by (auto intro!: page_addr_after_header)

lemma well_formed_apart:
  assumes "well_formed w logger" "p \<in> set (page_entries w)" "q \<in> set (page_entries w)" "p \<noteq> q"
  shows "p + LOGGER_BLOCK_SIZE (page_buffer_size (mem w) logger) \<le> q \<or>
         q + LOGGER_BLOCK_SIZE (page_buffer_size (mem w) logger) \<le> p"
proof -
  let ?cap = "page_buffer_size (mem w) logger"
  obtain i j where i: "p = page_addr logger ?cap i" and j: "q = page_addr logger ?cap j"
    using well_formed_entry[OF assms(1,2)] well_formed_entry[OF assms(1,3)] by blast
  have cap: "0 \<le> ?cap"
    using well_formedD(1)[OF assms(1)] by simp
  from assms(4) i j have "i \<noteq> j"
    by auto
  then have "i < j \<or> j < i"
    by arith
  then show ?thesis
    using page_addr_apart[OF cap, of i j logger] page_addr_apart[OF cap, of j i logger] i j
    by auto
qed

lemma unchanged_outsideD: "unchanged_outside m m' lo hi \<Longrightarrow> x < lo \<or> hi \<le> x \<Longrightarrow> m' x = m x"
  by (auto simp add: unchanged_outside_def)

text \<open>An operation on the page of record \<open>p\<close> that changes nothing below \<open>p\<close> and nothing from
  two bytes behind the block of \<open>p\<close> on leaves the header and the counters and buffer
  pointers of the other pages alone.\<close>

lemma other_page_kept:
  assumes wf: "well_formed w logger"
    and p: "p \<in> set (page_entries w)" and q: "q \<in> set (page_entries w)" and pq: "q \<noteq> p"
    and un: "unchanged_outside (mem w) m' p
               (p + LOGGER_BLOCK_SIZE (page_buffer_size (mem w) logger) + 2)"
  shows "page_remaining m' q = page_remaining (mem w) q"
    and "page_buffer m' q = page_buffer (mem w) q"
proof -
  let ?B = "LOGGER_BLOCK_SIZE (page_buffer_size (mem w) logger)"
  have B: "34 \<le> ?B"
    using LOGGER_BLOCK_SIZE_bounds[of "page_buffer_size (mem w) logger"] well_formedD(1)[OF wf]
    by simp
  have ap: "p + ?B \<le> q \<or> q + ?B \<le> p"
    using well_formed_apart[OF wf p q] pq by auto
  show "page_remaining m' q = page_remaining (mem w) q"
    unfolding page_remaining_def
    using ap B by (intro load_int_cong unchanged_outsideD[OF un]) auto
  show "page_buffer m' q = page_buffer (mem w) q"
    unfolding page_buffer_def
    using ap B by (intro load_ptr_cong unchanged_outsideD[OF un]) auto
qed

lemma other_page_type_kept:
  assumes wf: "well_formed w logger"
    and p: "p \<in> set (page_entries w)" and q: "q \<in> set (page_entries w)" and pq: "q \<noteq> p"
    and un: "unchanged_outside (mem w) m' p
               (p + LOGGER_BLOCK_SIZE (page_buffer_size (mem w) logger))"
  shows "page_type m' q = page_type (mem w) q"
proof -
  let ?B = "LOGGER_BLOCK_SIZE (page_buffer_size (mem w) logger)"
  have B: "34 \<le> ?B"
    using LOGGER_BLOCK_SIZE_bounds[of "page_buffer_size (mem w) logger"] well_formedD(1)[OF wf]
    by simp
  have ap: "p + ?B \<le> q \<or> q + ?B \<le> p"
    using well_formed_apart[OF wf p q] pq by auto
  show ?thesis
    unfolding page_type_def
    using ap B by (intro load_int_cong unchanged_outsideD[OF un]) auto
qed

lemma header_kept:
  assumes wf: "well_formed w logger" and p: "p \<in> set (page_entries w)"
    and un: "unchanged_outside (mem w) m' p hi"
  shows "page_buffer_size m' logger = page_buffer_size (mem w) logger"
    and "total_pages m' logger = total_pages (mem w) logger"
proof -
  have h: "logger + 40 \<le> p"
    using well_formed_after_header[OF wf p] .
  show "page_buffer_size m' logger = page_buffer_size (mem w) logger"
    unfolding page_buffer_size_def
    using h by (intro load_int_cong unchanged_outsideD[OF un]) auto
  show "total_pages m' logger = total_pages (mem w) logger"
    unfolding total_pages_def
    using h by (intro load_int_cong unchanged_outsideD[OF un]) auto
qed

lemma well_formed_update:
  assumes wf: "well_formed w logger" and p: "p \<in> set (page_entries w)"
    and un: "unchanged_outside (mem w) m' p
               (p + LOGGER_BLOCK_SIZE (page_buffer_size (mem w) logger) + 2)"
    and pb: "page_buffer m' p = p + 32"
    and r: "- 1 \<le> page_remaining m' p" "page_remaining m' p \<le> page_buffer_size (mem w) logger"
  shows "well_formed (w\<lparr>mem := m'\<rparr>) logger"
proof -
  note hd = header_kept[OF wf p un]
  have "page_buffer m' q = q + 32 \<and> - 1 \<le> page_remaining m' q \<and>
      page_remaining m' q \<le> page_buffer_size (mem w) logger" if "q \<in> set (page_entries w)" for q
  proof (cases "q = p")
    case True
    with pb r show ?thesis by simp
  next
    case False
    then show ?thesis
      using other_page_kept[OF wf p that False un] well_formedD(5,6,7)[OF wf that] by simp
  qed
  then show ?thesis
    using well_formedD(1,2,3)[OF wf] hd
    by (simp add: well_formed_def Let_def sizeof_page_list_def)
qed

subsection \<open>Operations keep a logger well formed\<close>

lemma store_int_apply:
  "store_int m a v x = (if a \<le> x \<and> x < a + 4 then le_bytes 4 v ! nat (x - a) else m x)"
  by (simp add: store_int_def write_bytes_apply)

lemma load_int_bytes:
  assumes "\<And>x. a \<le> x \<Longrightarrow> x < a + 4 \<Longrightarrow> m x = le_bytes 4 v ! nat (x - a)"
    and "- 2147483648 \<le> v" "v < 2147483648"
  shows "load_int m a = v"
proof -
  have "load_int m a = load_int (store_int m a v) a"
    by (rule load_int_cong) (simp add: store_int_apply assms(1))
  then show ?thesis
    using assms(2,3) by (simp add: load_int_store_int)
qed

lemma helper_well_formed:
  assumes wf: "well_formed w logger"
    and p: "entry_at (page_entries w) 0 index = Some p"
    and r0: "0 \<le> page_remaining (mem w) p"
    and n: "(if sz \<le> 0 then map_option int_of_size_t (strlen data) else Some sz) = Some n"
    and n0: "0 \<le> n"
    and len: "min n (page_remaining (mem w) p) \<le> int (length data)"
  shows "\<exists>r w'. logger_add_data_helper w logger data sz index endc = Inr (r, w') \<and>
     well_formed w' logger \<and> page_entries w' = page_entries w \<and>
     page_remaining (mem w') p \<le> page_remaining (mem w) p \<and>
     (\<forall>q \<in> set (page_entries w). q \<noteq> p \<longrightarrow> page_remaining (mem w') q = page_remaining (mem w) q)"
proof -
  let ?rem = "page_remaining (mem w) p"
  let ?cap = "page_buffer_size (mem w) logger"
  let ?s = "min n ?rem"
  let ?m' = "written (mem w) p ?cap ?rem ?s endc data"
  have mem: "p \<in> set (page_entries w)"
    using p by (rule entry_at_in_set)
  note pb = well_formedD(5)[OF wf mem] and rc = well_formedD(7)[OF wf mem]
  note h = helper_eq(1)[OF assms, of endc] helper_eq(2)[OF assms]
  have Bb: "?cap + 32 \<le> LOGGER_BLOCK_SIZE ?cap"
    using LOGGER_BLOCK_SIZE_bounds[of ?cap] by simp
  have fr: "x < p + 4 \<or> (p + 8 \<le> x \<and> x < p + 32 + (?cap - ?rem)) \<or>
      p + 32 + (?cap - ?rem) + ?s + 2 \<le> x \<Longrightarrow> ?m' x = mem w x" for x
    using h(2) len rc by (intro written_frame) simp_all
  have un: "unchanged_outside (mem w) ?m' p (p + LOGGER_BLOCK_SIZE ?cap + 2)"
    unfolding unchanged_outside_def using Bb r0 by (auto intro!: fr)
  have "page_buffer ?m' p = page_buffer (mem w) p"
    unfolding page_buffer_def using rc by (intro load_ptr_cong fr) auto
  then have pb': "page_buffer ?m' p = p + 32"
    using pb by simp
  have r': "page_remaining ?m' p = ?rem - (if endc \<noteq> NUL then ?s + 1 else ?s)"
    using h(2) len rc remaining_int_range[of "mem w" p] by (intro written_remaining) simp_all
  have "well_formed (w\<lparr>mem := ?m'\<rparr>) logger"
    using h(2) rc r' by (intro well_formed_update[OF wf mem un pb']) auto
  moreover have "page_remaining ?m' p \<le> ?rem"
    using r' h(2) by auto
  moreover have "page_remaining ?m' q = page_remaining (mem w) q"
    if "q \<in> set (page_entries w)" "q \<noteq> p" for q
    using other_page_kept(1)[OF wf mem that un] .
  ultimately show ?thesis
    using h(1) by auto
qed

lemma set_page_type_well_formed:
  assumes wf: "well_formed w logger"
    and p: "entry_at (page_entries w) 0 page_index = Some p"
  shows "logger_set_page_type w logger page_index t
       = (0, w\<lparr>mem := set_page_type (mem w) p (enum_value t)\<rparr>)"
    and "well_formed (w\<lparr>mem := set_page_type (mem w) p (enum_value t)\<rparr>) logger"
    and "\<forall>q \<in> set (page_entries w).
           page_remaining (set_page_type (mem w) p (enum_value t)) q = page_remaining (mem w) q"
proof -
  let ?cap = "page_buffer_size (mem w) logger"
  let ?m' = "set_page_type (mem w) p (enum_value t)"
  have mem: "p \<in> set (page_entries w)"
    using p by (rule entry_at_in_set)
  show "logger_set_page_type w logger page_index t = (0, w\<lparr>mem := ?m'\<rparr>)"
    using p by (simp add: logger_set_page_type_def)
  have fr: "x < p \<or> p + 4 \<le> x \<Longrightarrow> ?m' x = mem w x" for x
    by (auto simp add: set_page_type_def store_int_other)
  have Bb: "?cap + 32 \<le> LOGGER_BLOCK_SIZE ?cap"
    using LOGGER_BLOCK_SIZE_bounds[of ?cap] by simp
  have un: "unchanged_outside (mem w) ?m' p (p + LOGGER_BLOCK_SIZE ?cap + 2)"
    unfolding unchanged_outside_def using Bb well_formedD(1)[OF wf] by (auto intro!: fr)
  have pb': "page_buffer ?m' p = p + 32"
    using well_formedD(5)[OF wf mem]
    by (simp add: page_buffer_def set_page_type_def load_ptr_store_int_other)
  have r': "page_remaining ?m' p = page_remaining (mem w) p"
    by (simp add: page_remaining_def set_page_type_def load_int_store_int_other)
  show "well_formed (w\<lparr>mem := ?m'\<rparr>) logger"
    using well_formedD(6,7)[OF wf mem] r' by (intro well_formed_update[OF wf mem un pb']) auto
  show "\<forall>q \<in> set (page_entries w). page_remaining ?m' q = page_remaining (mem w) q"
    using other_page_kept(1)[OF wf mem _ _ un] r' by (metis)
qed

subsection \<open>Clearing\<close>

lemma page_cleared_apply:
  "0 \<le> cap \<Longrightarrow> page_cleared m p cap x =
     (if p \<le> x \<and> x < p + 4 then le_bytes 4 (enum_value PAGE_TYPE_DEFAULT) ! nat (x - p)
      else if p + 4 \<le> x \<and> x < p + 8 then le_bytes 4 cap ! nat (x - (p + 4))
      else if p + 32 \<le> x \<and> x < p + 32 + cap then NUL
      else m x)"
  unfolding page_cleared_def set_page_type_def set_page_remaining_def
  by (auto simp add: store_int_apply write_bytes_apply)

lemma page_reset_apply:
  "page_reset m p cap x =
     (if p \<le> x \<and> x < p + 4 then le_bytes 4 (enum_value PAGE_TYPE_DEFAULT) ! nat (x - p)
      else if p + 4 \<le> x \<and> x < p + 8 then le_bytes 4 cap ! nat (x - (p + 4))
      else if x = p + 32 \<or> x = p + 33 then NUL
      else m x)"
  unfolding page_reset_def set_page_type_def set_page_remaining_def
  by (auto simp add: store_int_apply)

text \<open>What the two clears have in common: the first eight bytes of the record hold type 0
  and the full counter.\<close>

lemma reset_fields:
  assumes "\<And>x. p \<le> x \<Longrightarrow> x < p + 4 \<Longrightarrow> m' x = le_bytes 4 (enum_value PAGE_TYPE_DEFAULT) ! nat (x - p)"
    and "\<And>x. p + 4 \<le> x \<Longrightarrow> x < p + 8 \<Longrightarrow> m' x = le_bytes 4 cap ! nat (x - (p + 4))"
    and "0 \<le> cap" "cap < 2147483648"
  shows "page_type m' p = enum_value PAGE_TYPE_DEFAULT" and "page_remaining m' p = cap"
proof -
  show "page_type m' p = enum_value PAGE_TYPE_DEFAULT"
    unfolding page_type_def by (rule load_int_bytes) (simp_all add: assms(1))
  show "page_remaining m' p = cap"
    unfolding page_remaining_def using assms(3,4) by (intro load_int_bytes) (simp_all add: assms(2))
qed

lemma cap_int_range: "page_buffer_size m logger < 2147483648"
  using load_int_range[of m logger] by (simp add: page_buffer_size_def)

lemma logger_clear_page_eq:
  assumes wf: "well_formed w logger"
    and p: "entry_at (page_entries w) 0 page_index = Some p"
  shows "logger_clear_page w logger page_index =
     Inr (w\<lparr>mem := page_cleared (mem w) p (page_buffer_size (mem w) logger)\<rparr>)"
proof -
  let ?cap = "page_buffer_size (mem w) logger"
  have mem: "p \<in> set (page_entries w)"
    using p by (rule entry_at_in_set)
  have dn: "entry_down (page_entries w) page_index = Some p"
    using p by (simp add: entry_down_well_formed[OF wf])
  have cap: "2 \<le> ?cap"
    using well_formedD(1)[OF wf] .
  have ms: "memset (mem w) (p + 32) NUL ?cap = Inr (write_bytes (mem w) (p + 32) (replicate (nat ?cap) NUL))"
    using cap by (simp add: memset_def)
  have hd: "page_buffer_size (write_bytes (mem w) (p + 32) (replicate (nat ?cap) NUL)) logger = ?cap"
    unfolding page_buffer_size_def
    using well_formed_after_header[OF wf mem] by (intro load_int_write_bytes) simp
  show ?thesis
    by (simp only: logger_clear_page_def dn well_formedD(5)[OF wf mem] ms hd Let_def
        page_cleared_def option.case sum.case)
qed

lemma page_cleared_well_formed:
  assumes wf: "well_formed w logger" and mem: "p \<in> set (page_entries w)"
  shows "well_formed (w\<lparr>mem := page_cleared (mem w) p (page_buffer_size (mem w) logger)\<rparr>) logger"
    and "unchanged_outside (mem w) (page_cleared (mem w) p (page_buffer_size (mem w) logger)) p
           (p + LOGGER_BLOCK_SIZE (page_buffer_size (mem w) logger))"
    and "page_type (page_cleared (mem w) p (page_buffer_size (mem w) logger)) p
           = enum_value PAGE_TYPE_DEFAULT"
    and "page_remaining (page_cleared (mem w) p (page_buffer_size (mem w) logger)) p
           = page_buffer_size (mem w) logger"
    and "read_bytes (page_cleared (mem w) p (page_buffer_size (mem w) logger)) (p + 32)
           (nat (page_buffer_size (mem w) logger))
           = replicate (nat (page_buffer_size (mem w) logger)) NUL"
proof -
  let ?cap = "page_buffer_size (mem w) logger"
  let ?m' = "page_cleared (mem w) p ?cap"
  have cap: "2 \<le> ?cap"
    using well_formedD(1)[OF wf] .
  then have cap0: "0 \<le> ?cap" by simp
  have Bb: "?cap + 32 \<le> LOGGER_BLOCK_SIZE ?cap"
    using LOGGER_BLOCK_SIZE_bounds[of ?cap] by simp
  show un: "unchanged_outside (mem w) ?m' p (p + LOGGER_BLOCK_SIZE ?cap)"
    unfolding unchanged_outside_def using Bb cap0 by (auto simp add: page_cleared_apply)
  then have un2: "unchanged_outside (mem w) ?m' p (p + LOGGER_BLOCK_SIZE ?cap + 2)"
    by (simp add: unchanged_outside_def)
  show ty: "page_type ?m' p = enum_value PAGE_TYPE_DEFAULT"
    and rm: "page_remaining ?m' p = ?cap"
    using cap0 cap_int_range[of "mem w" logger]
    by (intro reset_fields[of p ?m' ?cap]; simp add: page_cleared_apply)+
  have "page_buffer ?m' p = page_buffer (mem w) p"
    unfolding page_buffer_def using cap0 by (intro load_ptr_cong) (simp add: page_cleared_apply)
  then have pb': "page_buffer ?m' p = p + 32"
    using well_formedD(5)[OF wf mem] by simp
  show "well_formed (w\<lparr>mem := ?m'\<rparr>) logger"
    using rm cap0 by (intro well_formed_update[OF wf mem un2 pb']) simp_all
  show "read_bytes ?m' (p + 32) (nat ?cap) = replicate (nat ?cap) NUL"
    using cap0 by (intro nth_equalityI) (auto simp add: read_bytes_nth page_cleared_apply)
qed

lemma clear_all_loop_step:
  assumes pb: "page_buffer m p = p + 32"
    and hd: "page_buffer_size m logger = cap" and lo: "logger + 4 \<le> p"
  shows "clear_all_loop m logger (p # rest) = clear_all_loop (page_reset m p cap) logger rest"
proof -
  have pb1: "page_buffer (m(p + 32 + 0 := NUL)) p = p + 32"
    using pb by (simp add: page_buffer_def load_ptr_upd)
  have hd2: "page_buffer_size (m(p + 32 + 0 := NUL, p + 32 + 1 := NUL)) logger = cap"
    using hd lo by (simp add: page_buffer_size_def load_int_upd)
  show ?thesis
    by (simp only: clear_all_loop.simps Let_def pb pb1 hd2 page_reset_def)
qed

lemma page_reset_kept:
  assumes "x < p \<or> p + 34 \<le> x \<or> (p + 8 \<le> x \<and> x < p + 32)"
  shows "page_reset m p cap x = m x"
  using assms by (auto simp add: page_reset_apply)

lemma page_reset_pointwise: "m x = m' x \<Longrightarrow> page_reset m p cap x = page_reset m' p cap x"
  by (simp add: page_reset_apply)

text \<open>The memory after the loop of \<^verbatim>\<open>logger_clear_all\<close>, byte by byte: inside the first 34
  bytes of the block of a page it is what one reset of that page leaves, elsewhere it is
  what it was.\<close>

lemma clear_all_loop_apply:
  assumes "\<And>q. q \<in> set ps \<Longrightarrow> page_buffer m q = q + 32"
    and "\<And>q. q \<in> set ps \<Longrightarrow> logger + 4 \<le> q"
    and "\<And>q q'. q \<in> set ps \<Longrightarrow> q' \<in> set ps \<Longrightarrow> q \<noteq> q' \<Longrightarrow> q + 34 \<le> q' \<or> q' + 34 \<le> q"
    and "distinct ps"
    and "page_buffer_size m logger = cap"
  shows "(\<forall>q \<in> set ps. q \<le> x \<and> x < q + 34 \<longrightarrow>
            clear_all_loop m logger ps x = page_reset m q cap x) \<and>
         ((\<forall>q \<in> set ps. x < q \<or> q + 34 \<le> x) \<longrightarrow> clear_all_loop m logger ps x = m x)"
  using assms
proof (induction ps arbitrary: m)
  case Nil
  then show ?case by simp
next
  case (Cons p rest)
  let ?m1 = "page_reset m p cap"
  have step: "clear_all_loop m logger (p # rest) = clear_all_loop ?m1 logger rest"
    using Cons.prems(1,2,5) by (intro clear_all_loop_step) simp_all
  have sep: "p + 34 \<le> q \<or> q + 34 \<le> p" if "q \<in> set rest" for q
    using Cons.prems(3)[of p q] Cons.prems(4) that by auto
  have pb1: "page_buffer ?m1 q = q + 32" if "q \<in> set rest" for q
  proof -
    have "page_buffer ?m1 q = page_buffer m q"
      unfolding page_buffer_def using sep[OF that]
      by (intro load_ptr_cong page_reset_kept) auto
    then show ?thesis
      using Cons.prems(1)[of q] that by simp
  qed
  have hd1: "page_buffer_size ?m1 logger = cap"
  proof -
    have "page_buffer_size ?m1 logger = page_buffer_size m logger"
      unfolding page_buffer_size_def using Cons.prems(2)[of p]
      by (intro load_int_cong page_reset_kept) auto
    then show ?thesis
      using Cons.prems(5) by simp
  qed
  have IH: "(\<forall>q \<in> set rest. q \<le> x \<and> x < q + 34 \<longrightarrow>
            clear_all_loop ?m1 logger rest x = page_reset ?m1 q cap x) \<and>
         ((\<forall>q \<in> set rest. x < q \<or> q + 34 \<le> x) \<longrightarrow> clear_all_loop ?m1 logger rest x = ?m1 x)"
    using Cons.prems(2,3,4) pb1 hd1 by (intro Cons.IH) auto
  show ?case
  proof (cases "p \<le> x \<and> x < p + 34")
    case True
    then have "\<forall>q \<in> set rest. x < q \<or> q + 34 \<le> x"
      using sep by fastforce
    then have "clear_all_loop m logger (p # rest) x = ?m1 x"
      using IH step by simp
    moreover have "q = p" if "q \<in> set (p # rest)" "q \<le> x \<and> x < q + 34" for q
      using that True sep[of q] by auto
    ultimately show ?thesis
      using True by auto
  next
    case False
    then have same: "?m1 x = m x"
      by (intro page_reset_kept) auto
    have "clear_all_loop m logger (p # rest) x = page_reset m q cap x"
      if "q \<in> set rest" "q \<le> x \<and> x < q + 34" for q
      using that IH step page_reset_pointwise[of ?m1 x m q cap] same by simp
    moreover have "clear_all_loop m logger (p # rest) x = m x"
      if "\<forall>q \<in> set rest. x < q \<or> q + 34 \<le> x"
      using that IH step same by simp
    ultimately show ?thesis
      using False by auto
  qed
qed

lemma well_formed_distinct:
  assumes "well_formed w logger"
  shows "distinct (page_entries w)"
proof -
  have "inj_on (page_addr logger (page_buffer_size (mem w) logger)) A" for A
    using well_formedD(1)[OF assms] by (intro inj_onI) (auto dest!: page_addr_inj[rotated])
  then show ?thesis
    unfolding well_formedD(3)[OF assms] by (simp add: distinct_map)
qed

lemma well_formed_apart34:
  assumes "well_formed w logger" "p \<in> set (page_entries w)" "q \<in> set (page_entries w)" "p \<noteq> q"
  shows "p + 34 \<le> q \<or> q + 34 \<le> p"
  using well_formed_apart[OF assms] well_formedD(1)[OF assms(1)]
    LOGGER_BLOCK_SIZE_bounds[of "page_buffer_size (mem w) logger"]
  by auto

lemma page_reset_twice:
  "m' x = page_reset m p cap x \<Longrightarrow> page_reset m' p cap x = page_reset m p cap x"
  by (simp add: page_reset_apply)

text \<open>What \<^verbatim>\<open>logger_clear_all\<close> does to a well-formed logger.\<close>

lemma logger_clear_all_props:
  assumes wf: "well_formed w logger"
  shows "page_entries (logger_clear_all w logger) = page_entries w"
    and "\<And>q x. q \<in> set (page_entries w) \<Longrightarrow> q \<le> x \<Longrightarrow> x < q + 34 \<Longrightarrow>
           mem (logger_clear_all w logger) x
             = page_reset (mem w) q (page_buffer_size (mem w) logger) x"
    and "\<And>x. (\<And>q. q \<in> set (page_entries w) \<Longrightarrow> x < q \<or> q + 34 \<le> x) \<Longrightarrow>
           mem (logger_clear_all w logger) x = mem w x"
proof -
  let ?cap = "page_buffer_size (mem w) logger"
  have lo: "logger + 4 \<le> q" if "q \<in> set (page_entries w)" for q
    using well_formed_after_header[OF wf that] by simp
  note ap = clear_all_loop_apply[of "page_entries w" "mem w" logger ?cap,
      OF well_formedD(5)[OF wf] lo well_formed_apart34[OF wf] well_formed_distinct[OF wf] refl]
  show "page_entries (logger_clear_all w logger) = page_entries w"
    by (simp add: logger_clear_all_def)
  show "mem (logger_clear_all w logger) x = page_reset (mem w) q ?cap x"
    if "q \<in> set (page_entries w)" "q \<le> x" "x < q + 34" for q x
    using ap[of x] that by (simp add: logger_clear_all_def)
  show "mem (logger_clear_all w logger) x = mem w x"
    if "\<And>q. q \<in> set (page_entries w) \<Longrightarrow> x < q \<or> q + 34 \<le> x" for x
    using ap[of x] that by (simp add: logger_clear_all_def)
qed

lemma logger_clear_all_fields:
  assumes wf: "well_formed w logger" and q: "q \<in> set (page_entries w)"
  shows "page_type (mem (logger_clear_all w logger)) q = enum_value PAGE_TYPE_DEFAULT"
    and "page_remaining (mem (logger_clear_all w logger)) q = page_buffer_size (mem w) logger"
    and "page_buffer (mem (logger_clear_all w logger)) q = q + 32"
    and "mem (logger_clear_all w logger) (q + 32) = NUL"
    and "mem (logger_clear_all w logger) (q + 33) = NUL"
proof -
  let ?cap = "page_buffer_size (mem w) logger"
  let ?m' = "mem (logger_clear_all w logger)"
  note in_block = logger_clear_all_props(2)[OF wf q]
  have cap0: "0 \<le> ?cap"
    using well_formedD(1)[OF wf] by simp
  show "page_type ?m' q = enum_value PAGE_TYPE_DEFAULT" and "page_remaining ?m' q = ?cap"
    using cap0 cap_int_range[of "mem w" logger]
    by (intro reset_fields[of q ?m' ?cap]; simp add: in_block page_reset_apply)+
  have "page_buffer ?m' q = page_buffer (mem w) q"
    unfolding page_buffer_def by (intro load_ptr_cong) (simp add: in_block page_reset_apply)
  then show "page_buffer ?m' q = q + 32"
    using well_formedD(5)[OF wf q] by simp
  show "?m' (q + 32) = NUL" "?m' (q + 33) = NUL"
    by (simp_all add: in_block page_reset_apply)
qed

lemma logger_clear_all_header:
  assumes wf: "well_formed w logger"
  shows "page_buffer_size (mem (logger_clear_all w logger)) logger = page_buffer_size (mem w) logger"
    and "total_pages (mem (logger_clear_all w logger)) logger = total_pages (mem w) logger"
proof -
  have out: "mem (logger_clear_all w logger) x = mem w x" if "x < logger + 8" for x
    using that well_formed_after_header[OF wf]
    by (intro logger_clear_all_props(3)[OF wf]) fastforce
  show "page_buffer_size (mem (logger_clear_all w logger)) logger = page_buffer_size (mem w) logger"
    unfolding page_buffer_size_def by (intro load_int_cong out) simp
  show "total_pages (mem (logger_clear_all w logger)) logger = total_pages (mem w) logger"
    unfolding total_pages_def by (intro load_int_cong out) simp
qed

lemma logger_clear_all_well_formed:
  assumes wf: "well_formed w logger"
  shows "well_formed (logger_clear_all w logger) logger"
  unfolding well_formed_def Let_def
  using well_formedD(1,2,3)[OF wf] logger_clear_all_props(1)[OF wf]
    logger_clear_all_header[OF wf] logger_clear_all_fields(2,3)[OF wf]
  by (simp add: sizeof_page_list_def)

lemma logger_clear_all_tail_kept:
  assumes wf: "well_formed w logger" and q: "q \<in> set (page_entries w)"
    and k: "2 \<le> k" "k < page_buffer_size (mem w) logger"
  shows "mem (logger_clear_all w logger) (q + 32 + k) = mem w (q + 32 + k)"
proof (rule logger_clear_all_props(3)[OF wf])
  fix q' assume q': "q' \<in> set (page_entries w)"
  show "q + 32 + k < q' \<or> q' + 34 \<le> q + 32 + k"
  proof (cases "q' = q")
    case True
    with k show ?thesis by simp
  next
    case False
    then show ?thesis
      using well_formed_apart[OF wf q q'] k
        LOGGER_BLOCK_SIZE_bounds[of "page_buffer_size (mem w) logger"]
      by auto
  qed
qed

lemma logger_clear_all_idem:
  assumes wf: "well_formed w logger"
  shows "logger_clear_all (logger_clear_all w logger) logger = logger_clear_all w logger"
proof -
  let ?w' = "logger_clear_all w logger"
  let ?cap = "page_buffer_size (mem w) logger"
  note wf' = logger_clear_all_well_formed[OF wf]
  note ent = logger_clear_all_props(1)[OF wf]
  note cap' = logger_clear_all_header(1)[OF wf]
  have "mem (logger_clear_all ?w' logger) x = mem ?w' x" for x
  proof (cases "\<exists>q \<in> set (page_entries w). q \<le> x \<and> x < q + 34")
    case True
    then obtain q where q: "q \<in> set (page_entries w)" "q \<le> x" "x < q + 34"
      by blast
    have "mem (logger_clear_all ?w' logger) x = page_reset (mem ?w') q ?cap x"
      using logger_clear_all_props(2)[OF wf', of q x] q by (simp add: ent cap')
    also have "\<dots> = page_reset (mem w) q ?cap x"
      using logger_clear_all_props(2)[OF wf q] by (intro page_reset_twice)
    finally show ?thesis
      using logger_clear_all_props(2)[OF wf q] by simp
  next
    case False
    then show ?thesis
      by (intro logger_clear_all_props(3)[OF wf']) (auto simp add: ent)
  qed
  then have "mem (logger_clear_all ?w' logger) = mem ?w'"
    by (rule ext)
  then show ?thesis
    by (simp add: logger_clear_all_def)
qed

lemma page_zeroed_cong:
  assumes "\<And>x. q \<le> x \<Longrightarrow> x < q + 32 + cap \<Longrightarrow> m' x = m x" and "0 \<le> cap"
  shows "page_zeroed m' q cap = page_zeroed m q cap"
proof -
  have "read_bytes m' q 4 = read_bytes m q 4"
    using assms(2) by (intro read_bytes_cong assms(1)) simp_all
  moreover have "read_bytes m' (q + 4) 4 = read_bytes m (q + 4) 4"
    using assms(2) by (intro read_bytes_cong assms(1)) simp_all
  moreover have "read_bytes m' (q + 32) (nat cap) = read_bytes m (q + 32) (nat cap)"
    using assms(2) by (intro read_bytes_cong assms(1)) simp_all
  ultimately show ?thesis
    by (simp add: page_zeroed_def)
qed

lemma page_zeroedD:
  assumes "page_zeroed m p cap" "2 \<le> cap" "cap < 2147483648"
  shows "page_type m p = enum_value PAGE_TYPE_DEFAULT" and "page_remaining m p = cap"
    and "m (p + 32) = NUL" and "m (p + 33) = NUL"
proof -
  have t: "m x = le_bytes 4 (enum_value PAGE_TYPE_DEFAULT) ! nat (x - p)" if "p \<le> x" "x < p + 4" for x
    using read_bytes_nth[of "nat (x - p)" 4 m p] assms(1) that by (simp add: page_zeroed_def)
  have r: "m x = le_bytes 4 cap ! nat (x - (p + 4))" if "p + 4 \<le> x" "x < p + 8" for x
    using read_bytes_nth[of "nat (x - (p + 4))" 4 m "p + 4"] assms(1) that
    by (simp add: page_zeroed_def)
  show "page_type m p = enum_value PAGE_TYPE_DEFAULT" and "page_remaining m p = cap"
    using assms(2,3) by (intro reset_fields[of p m cap]; simp add: t r)+
  show "m (p + 32) = NUL"
    using read_bytes_nth[of 0 "nat cap" m "p + 32"] assms(1,2) by (simp add: page_zeroed_def)
  show "m (p + 33) = NUL"
    using read_bytes_nth[of 1 "nat cap" m "p + 32"] assms(1,2)
    by (simp add: page_zeroed_def add.commute)
qed

lemma page_cleared_zeroed: "0 \<le> cap \<Longrightarrow> page_zeroed (page_cleared m p cap) p cap"
  unfolding page_zeroed_def
  by (intro conjI nth_equalityI) (auto simp add: read_bytes_nth page_cleared_apply)

lemma page_cleared_idem:
  assumes "page_zeroed m p cap" "0 \<le> cap"
  shows "page_cleared m p cap = m"
proof (rule ext)
  fix x
  have t: "m x = le_bytes 4 (enum_value PAGE_TYPE_DEFAULT) ! nat (x - p)" if "p \<le> x" "x < p + 4"
    using read_bytes_nth[of "nat (x - p)" 4 m p] assms(1) that by (simp add: page_zeroed_def)
  have r: "m x = le_bytes 4 cap ! nat (x - (p + 4))" if "p + 4 \<le> x" "x < p + 8"
    using read_bytes_nth[of "nat (x - (p + 4))" 4 m "p + 4"] assms(1) that
    by (simp add: page_zeroed_def)
  have b: "m x = NUL" if "p + 32 \<le> x" "x < p + 32 + cap"
    using read_bytes_nth[of "nat (x - (p + 32))" "nat cap" m "p + 32"] assms(1) that
    by (simp add: page_zeroed_def)
  show "page_cleared m p cap x = m x"
    using t r b assms(2) by (simp add: page_cleared_apply)
qed

text \<open>Clearing the pages one by one: every index of the list ends up zeroed, pages zeroed
  before stay zeroed, and the logger stays well formed.\<close>

lemma clear_each_props:
  assumes "well_formed w logger"
    and "\<And>i. i \<in> set idxs \<Longrightarrow> 0 \<le> i \<and> i < total_pages (mem w) logger"
  shows "\<exists>w1. clear_each w logger idxs = Inr w1 \<and> well_formed w1 logger \<and>
     page_entries w1 = page_entries w \<and>
     page_buffer_size (mem w1) logger = page_buffer_size (mem w) logger \<and>
     total_pages (mem w1) logger = total_pages (mem w) logger \<and>
     (\<forall>i \<in> set idxs. page_zeroed (mem w1)
         (page_addr logger (page_buffer_size (mem w) logger) i) (page_buffer_size (mem w) logger)) \<and>
     (\<forall>q \<in> set (page_entries w). page_zeroed (mem w) q (page_buffer_size (mem w) logger) \<longrightarrow>
         page_zeroed (mem w1) q (page_buffer_size (mem w) logger))"
  using assms
proof (induction idxs arbitrary: w)
  case Nil
  then show ?case by simp
next
  case (Cons i idxs)
  let ?cap = "page_buffer_size (mem w) logger"
  let ?B = "LOGGER_BLOCK_SIZE ?cap"
  let ?p = "page_addr logger ?cap i"
  let ?m' = "page_cleared (mem w) ?p ?cap"
  let ?w' = "w\<lparr>mem := ?m'\<rparr>"
  note wf = Cons.prems(1)
  have i: "0 \<le> i" "i < total_pages (mem w) logger"
    using Cons.prems(2)[of i] by simp_all
  have p: "entry_at (page_entries w) 0 i = Some ?p"
    using i by (simp add: entry_at_well_formed[OF wf])
  then have mem: "?p \<in> set (page_entries w)"
    by (rule entry_at_in_set)
  have cap0: "0 \<le> ?cap" and Bb: "?cap + 32 \<le> ?B"
    using well_formedD(1)[OF wf] LOGGER_BLOCK_SIZE_bounds[of ?cap] by simp_all
  have cp: "logger_clear_page w logger i = Inr ?w'"
    by (rule logger_clear_page_eq[OF wf p])
  note pc = page_cleared_well_formed[OF wf mem]
  have hd: "page_buffer_size ?m' logger = ?cap" "total_pages ?m' logger = total_pages (mem w) logger"
    using header_kept[OF wf mem pc(2)] by simp_all
  have keep: "page_zeroed ?m' q ?cap" if "q \<in> set (page_entries w)" "page_zeroed (mem w) q ?cap" for q
  proof (cases "q = ?p")
    case True
    then show ?thesis
      using page_cleared_zeroed[OF cap0] by simp
  next
    case False
    have "page_zeroed ?m' q ?cap = page_zeroed (mem w) q ?cap"
      using well_formed_apart[OF wf mem that(1)] False Bb cap0
      by (intro page_zeroed_cong unchanged_outsideD[OF pc(2)]) auto
    with that(2) show ?thesis by simp
  qed
  from Cons.IH[of ?w'] pc(1) hd Cons.prems(2)
  obtain w1 where w1: "clear_each ?w' logger idxs = Inr w1" "well_formed w1 logger"
    "page_entries w1 = page_entries w"
    "page_buffer_size (mem w1) logger = ?cap"
    "total_pages (mem w1) logger = total_pages (mem w) logger"
    and z: "\<And>j. j \<in> set idxs \<Longrightarrow> page_zeroed (mem w1) (page_addr logger ?cap j) ?cap"
    and k: "\<And>q. q \<in> set (page_entries w) \<Longrightarrow> page_zeroed ?m' q ?cap \<Longrightarrow> page_zeroed (mem w1) q ?cap"
    by auto
  have "page_zeroed (mem w1) ?p ?cap"
    using k[OF mem] page_cleared_zeroed[OF cap0] by simp
  then have "\<forall>j \<in> set (i # idxs). page_zeroed (mem w1) (page_addr logger ?cap j) ?cap"
    using z by simp
  moreover have "\<forall>q \<in> set (page_entries w). page_zeroed (mem w) q ?cap \<longrightarrow> page_zeroed (mem w1) q ?cap"
    using keep k by blast
  ultimately show ?case
    using cp w1 by simp
qed

text \<open>Clearing pages that are zeroed already changes nothing.\<close>

lemma clear_each_noop:
  assumes wf: "well_formed w logger"
    and "\<And>i. i \<in> set idxs \<Longrightarrow> 0 \<le> i \<and> i < total_pages (mem w) logger"
    and "\<And>i. i \<in> set idxs \<Longrightarrow> page_zeroed (mem w)
           (page_addr logger (page_buffer_size (mem w) logger) i) (page_buffer_size (mem w) logger)"
  shows "clear_each w logger idxs = Inr w"
  using assms(2,3)
proof (induction idxs)
  case Nil
  then show ?case by simp
next
  case (Cons i idxs)
  let ?cap = "page_buffer_size (mem w) logger"
  have i: "0 \<le> i" "i < total_pages (mem w) logger"
    using Cons.prems(1)[of i] by simp_all
  have p: "entry_at (page_entries w) 0 i = Some (page_addr logger ?cap i)"
    using i by (simp add: entry_at_well_formed[OF wf])
  have "page_cleared (mem w) (page_addr logger ?cap i) ?cap = mem w"
    using Cons.prems(2)[of i] well_formedD(1)[OF wf] by (intro page_cleared_idem) simp_all
  then have "logger_clear_page w logger i = Inr w"
    using logger_clear_page_eq[OF wf p] by simp
  then show ?case
    using Cons by simp
qed

subsection \<open>Clearing all pages at once and one by one\<close>

text \<open>Clearing every page in turn, on a well-formed logger.\<close>

lemma clear_each_all:
  assumes wf: "well_formed w logger"
  shows "\<exists>w1. clear_each w logger [0..total_pages (mem w) logger - 1] = Inr w1 \<and>
     well_formed w1 logger \<and> page_entries w1 = page_entries w \<and>
     page_buffer_size (mem w1) logger = page_buffer_size (mem w) logger \<and>
     total_pages (mem w1) logger = total_pages (mem w) logger \<and>
     (\<forall>q \<in> set (page_entries w). page_zeroed (mem w1) q (page_buffer_size (mem w) logger))"
proof -
  let ?n = "total_pages (mem w) logger"
  let ?cap = "page_buffer_size (mem w) logger"
  have "\<And>i. i \<in> set [0..?n - 1] \<Longrightarrow> 0 \<le> i \<and> i < ?n"
    by simp
  from clear_each_props[OF wf this]
  obtain w1 where w1: "clear_each w logger [0..?n - 1] = Inr w1" "well_formed w1 logger"
    "page_entries w1 = page_entries w" "page_buffer_size (mem w1) logger = ?cap"
    "total_pages (mem w1) logger = ?n"
    and z: "\<forall>i \<in> set [0..?n - 1]. page_zeroed (mem w1) (page_addr logger ?cap i) ?cap"
    by blast
  have "page_zeroed (mem w1) q ?cap" if "q \<in> set (page_entries w)" for q
  proof -
    from well_formed_entry[OF wf that]
    obtain i where "0 \<le> i" "i < ?n" "q = page_addr logger ?cap i"
      by blast
    then show ?thesis
      using z by simp
  qed
  then show ?thesis
    using w1 by blast
qed

lemma read_bytes_2: "read_bytes m a 2 = [m a, m (a + 1)]"
  by (simp add: read_bytes_numeral)

lemma clear_all_vs_clear_each:
  assumes wf: "well_formed w logger"
    and w1: "clear_each w logger [0..total_pages (mem w) logger - 1] = Inr w1"
  shows "well_formed w1 logger" and "page_entries w1 = page_entries w"
    and "page_entries (logger_clear_all w logger) = page_entries w"
    and "remaining_list w1 = replicate (length (page_entries w)) (page_buffer_size (mem w) logger)"
    and "remaining_list (logger_clear_all w logger)
           = replicate (length (page_entries w)) (page_buffer_size (mem w) logger)"
    and "type_list w1 = replicate (length (page_entries w)) 0"
    and "type_list (logger_clear_all w logger) = replicate (length (page_entries w)) 0"
    and "buffer_list w1 2 = replicate (length (page_entries w)) [NUL, NUL]"
    and "buffer_list (logger_clear_all w logger) 2 = replicate (length (page_entries w)) [NUL, NUL]"
    and "\<And>q. q \<in> set (page_entries w) \<Longrightarrow> page_buffer (mem w1) q = q + 32"
    and "\<And>q. q \<in> set (page_entries w) \<Longrightarrow>
           read_bytes (mem w1) (q + 32) (nat (page_buffer_size (mem w) logger))
             = replicate (nat (page_buffer_size (mem w) logger)) NUL"
    and "clear_each w1 logger [0..total_pages (mem w) logger - 1] = Inr w1"
proof -
  let ?n = "total_pages (mem w) logger"
  let ?cap = "page_buffer_size (mem w) logger"
  let ?ca = "logger_clear_all w logger"
  from clear_each_all[OF wf] w1
  have wf1: "well_formed w1 logger" and e1: "page_entries w1 = page_entries w"
    and c1: "page_buffer_size (mem w1) logger = ?cap" and n1: "total_pages (mem w1) logger = ?n"
    and z: "\<And>q. q \<in> set (page_entries w) \<Longrightarrow> page_zeroed (mem w1) q ?cap"
    by auto
  note cap = well_formedD(1)[OF wf] cap_int_range[of "mem w" logger]
  note zd = page_zeroedD[OF z cap]
  show "well_formed w1 logger" and "page_entries w1 = page_entries w"
    by (rule wf1, rule e1)
  show ea: "page_entries ?ca = page_entries w"
    by (rule logger_clear_all_props(1)[OF wf])
  show pb1: "page_buffer (mem w1) q = q + 32" if "q \<in> set (page_entries w)" for q
    using well_formedD(5)[OF wf1] that e1 by simp
  show "read_bytes (mem w1) (q + 32) (nat ?cap) = replicate (nat ?cap) NUL"
    if "q \<in> set (page_entries w)" for q
    using z[OF that] by (simp add: page_zeroed_def)
  show "remaining_list w1 = replicate (length (page_entries w)) ?cap"
    unfolding remaining_list_def e1 by (intro map_const_replicate zd(2))
  show "remaining_list ?ca = replicate (length (page_entries w)) ?cap"
    unfolding remaining_list_def ea by (intro map_const_replicate logger_clear_all_fields(2)[OF wf])
  show "type_list w1 = replicate (length (page_entries w)) 0"
    unfolding type_list_def e1 using zd(1) by (intro map_const_replicate) simp
  show "type_list ?ca = replicate (length (page_entries w)) 0"
    unfolding type_list_def ea using logger_clear_all_fields(1)[OF wf]
    by (intro map_const_replicate) simp
  show "buffer_list w1 2 = replicate (length (page_entries w)) [NUL, NUL]"
    unfolding buffer_list_def e1 using zd(3,4) pb1
    by (intro map_const_replicate) (simp add: read_bytes_2 add.assoc)
  show "buffer_list ?ca 2 = replicate (length (page_entries w)) [NUL, NUL]"
    unfolding buffer_list_def ea using logger_clear_all_fields(3,4,5)[OF wf]
    by (intro map_const_replicate) (simp add: read_bytes_2 add.assoc)
  have "page_zeroed (mem w1) (page_addr logger (page_buffer_size (mem w1) logger) i)
          (page_buffer_size (mem w1) logger)"
    if "i \<in> set [0..total_pages (mem w1) logger - 1]" for i
    unfolding c1 using that z well_formedD(3)[OF wf] n1 by simp
  from clear_each_noop[OF wf1 _ this, of "[0..?n - 1]"]
  show "clear_each w1 logger [0..?n - 1] = Inr w1"
    by (simp add: n1)
qed

lemma read_bytes_drop: "drop k (read_bytes m a n) = read_bytes m (a + int k) (n - k)"
  by (intro nth_equalityI) (auto simp add: read_bytes_nth add.assoc)

lemma clear_all_vs_clear_each_buffers:
  assumes wf: "well_formed w logger"
    and w1: "clear_each w logger [0..total_pages (mem w) logger - 1] = Inr w1"
  shows "buffer_list w1 (nat (page_buffer_size (mem w) logger))
           = replicate (length (page_entries w)) (replicate (nat (page_buffer_size (mem w) logger)) NUL)"
    and "n \<le> nat (page_buffer_size (mem w) logger) \<Longrightarrow>
           map (drop 2) (buffer_list (logger_clear_all w logger) n) = map (drop 2) (buffer_list w n)"
    and "0 < n \<Longrightarrow> string_list w1 n = replicate (length (page_entries w)) []"
    and "0 < n \<Longrightarrow> string_list (logger_clear_all w logger) n = replicate (length (page_entries w)) []"
proof -
  let ?cap = "page_buffer_size (mem w) logger"
  let ?ca = "logger_clear_all w logger"
  note cc = clear_all_vs_clear_each[OF wf w1]
  note cap = well_formedD(1)[OF wf] cap_int_range[of "mem w" logger]
  show "buffer_list w1 (nat ?cap) = replicate (length (page_entries w)) (replicate (nat ?cap) NUL)"
    unfolding buffer_list_def cc(2) using cc(10,11) by (intro map_const_replicate) simp
  have "mem w1 (q + 32) = NUL" if "q \<in> set (page_entries w)" for q
    using read_bytes_nth[of 0 "nat ?cap" "mem w1" "q + 32"] cc(11)[OF that] cap by simp
  then show "string_list w1 n = replicate (length (page_entries w)) []" if "0 < n"
    unfolding string_list_def cc(2) using cc(10) that
    by (intro map_const_replicate) (simp add: c_string_empty)
  show "string_list ?ca n = replicate (length (page_entries w)) []" if "0 < n"
    unfolding string_list_def cc(3) using logger_clear_all_fields(3,4)[OF wf] that
    by (intro map_const_replicate) (simp add: c_string_empty)
  have "drop 2 (read_bytes (mem ?ca) (page_buffer (mem ?ca) q) n)
      = drop 2 (read_bytes (mem w) (page_buffer (mem w) q) n)"
    if q: "q \<in> set (page_entries w)" and n: "n \<le> nat ?cap" for q
  proof -
    have "read_bytes (mem ?ca) (q + 32 + 2) (n - 2) = read_bytes (mem w) (q + 32 + 2) (n - 2)"
    proof (rule read_bytes_cong)
      fix x assume x: "q + 32 + 2 \<le> x" "x < q + 32 + 2 + int (n - 2)"
      then have "x < q + 32 + ?cap"
        using n by (cases "2 \<le> n") simp_all
      then show "mem ?ca x = mem w x"
        using logger_clear_all_tail_kept[OF wf q, of "x - (q + 32)"] x by simp
    qed
    then show ?thesis
      using logger_clear_all_fields(3)[OF wf q] well_formedD(5)[OF wf q]
      by (simp add: read_bytes_drop)
  qed
  then show "map (drop 2) (buffer_list ?ca n) = map (drop 2) (buffer_list w n)"
    if "n \<le> nat ?cap"
    unfolding buffer_list_def cc(3) using that by simp
qed

subsection \<open>Reachable states are well formed\<close>

lemma add_data_at_fault:
  assumes "s = (if sz > page_remaining (mem w) current then page_remaining (mem w) current else sz)"
    and "s < 0 \<or> int (length data) < s"
  shows "add_data_at w logger current data sz endc = Inl BadMemcpy"
  using assms(2) unfolding add_data_at_def assms(1) Let_def memcpy_def
  by (simp split: if_splits)

lemma helper_result_well_formed:
  assumes wf: "well_formed w logger"
    and res: "logger_add_data_helper w logger data sz index endc = Inr (r, w')"
  shows "well_formed w' logger"
proof (cases "index < total_pages (mem w) logger \<and> 0 \<le> index")
  case False
  then have "w' = w"
    using res by (auto simp add: logger_add_data_helper_def)
  then show ?thesis
    using wf by simp
next
  case True
  let ?p = "page_addr logger (page_buffer_size (mem w) logger) index"
  let ?rem = "page_remaining (mem w) ?p"
  have p: "entry_at (page_entries w) 0 index = Some ?p"
    using True by (simp add: entry_at_well_formed[OF wf])
  from res True obtain n
    where n: "(if sz \<le> 0 then map_option int_of_size_t (strlen data) else Some sz) = Some n"
    by (auto simp add: logger_add_data_helper_def split: option.splits)
  have a: "logger_add_data_helper w logger data sz index endc
      = add_data_at w logger ?p data n endc"
    using True n p by (simp add: logger_add_data_helper_def)
  show ?thesis
  proof (cases "0 \<le> ?rem \<and> 0 \<le> n \<and> min n ?rem \<le> int (length data)")
    case True
    then show ?thesis
      using helper_well_formed[OF wf p _ n, of endc] res by auto
  next
    case False
    have "(if n > ?rem then ?rem else n) < 0 \<or> int (length data) < (if n > ?rem then ?rem else n)"
      using False by (auto simp add: min_def split: if_splits)
    from add_data_at_fault[OF refl this] show ?thesis
      using res a by simp
  qed
qed

lemma clear_page_result_well_formed:
  assumes wf: "well_formed w logger"
    and res: "logger_clear_page w logger page_index = Inr w'"
  shows "well_formed w' logger"
proof (cases "entry_at (page_entries w) 0 page_index")
  case None
  then have "entry_down (page_entries w) page_index = None"
    by (simp add: entry_down_well_formed[OF wf])
  then show ?thesis
    using res wf by (simp add: logger_clear_page_def)
next
  case (Some p)
  then show ?thesis
    using logger_clear_page_eq[OF wf Some] res
      page_cleared_well_formed(1)[OF wf entry_at_in_set[OF Some]] by simp
qed

lemma set_page_type_result_well_formed:
  assumes wf: "well_formed w logger"
  shows "well_formed (snd (logger_set_page_type w logger page_index t)) logger"
proof (cases "entry_at (page_entries w) 0 page_index")
  case None
  then show ?thesis
    using wf by (simp add: logger_set_page_type_def)
next
  case (Some p)
  then show ?thesis
    using set_page_type_well_formed(1,2)[OF wf Some] by simp
qed

lemma logger_create_result_well_formed:
  assumes res: "logger_create mallocv w page_amount page_size = Inr (Some logger, w')"
    and rng: "0 \<le> logger"
      "logger + LOGGER_ALLOC_SIZE page_amount (max page_size 2) \<le> 18446744073709551616"
  shows "well_formed w' logger"
proof -
  let ?cap = "max page_size 2"
  have pos: "0 < page_amount" "0 < page_size"
    using res by (auto simp add: logger_create_def split: if_splits)
  have cap: "(if page_size < 2 then 2 else page_size) = ?cap"
    by simp
  from res pos have al: "mallocv (int_of_size_t (LOGGER_ALLOC_SIZE page_amount ?cap)) = Some logger"
    unfolding logger_create_def cap Let_def
    by (auto split: option.splits if_splits sum.splits)
  from res pos al
  have fits: "int_of_size_t (LOGGER_ALLOC_SIZE page_amount ?cap) = LOGGER_ALLOC_SIZE page_amount ?cap"
    unfolding logger_create_def cap Let_def
    by (auto split: option.splits if_splits sum.splits)
  show ?thesis
  proof (cases "ALIGN_PTR (logger + LOGGER_SIZE_BASE) alignof_page_list
        + (page_amount + 2) * LOGGER_BLOCK_SIZE ?cap < 18446744073709551616")
    case True
    from logger_create_success[of page_amount page_size ?cap mallocv logger w,
        OF pos refl fits al rng True] res
    show ?thesis
      by auto
  next
    case False
    then have "logger_create mallocv w page_amount page_size = Inl AssertFailed"
      using logger_create_wrapped_end[of page_amount page_size ?cap mallocv logger w,
          OF pos refl fits al rng] by simp
    then show ?thesis
      using res by simp
  qed
qed

lemma buffer_write_well_formed:
  assumes wf: "well_formed w logger"
    and res: "logger_get_page_buffer w logger page_index = (Some b, w')"
    and k: "0 \<le> k" "k < page_buffer_size (mem w) logger"
  shows "well_formed (w'\<lparr>mem := (mem w')(b + k := c)\<rparr>) logger"
proof -
  let ?cap = "page_buffer_size (mem w) logger"
  obtain p where p: "entry_at (page_entries w) 0 page_index = Some p"
    and b: "b = page_buffer (mem w) p" and w': "w' = w"
  proof (cases "entry_at (page_entries w) 0 page_index")
    case None
    then show ?thesis
      using res by (simp add: logger_get_page_buffer_def)
  next
    case (Some p)
    then have "(Some b, w') = (Some (page_buffer (mem w) p), w)"
      using res by (simp only: logger_get_page_buffer_def option.case)
    then have "b = page_buffer (mem w) p" "w' = w"
      by (simp_all only: prod.inject option.inject)
    with Some show ?thesis
      by (rule that)
  qed
  have mem: "p \<in> set (page_entries w)"
    using p by (rule entry_at_in_set)
  have b32: "b = p + 32"
    using b well_formedD(5)[OF wf mem] by simp
  let ?m' = "(mem w)(b + k := c)"
  have Bb: "?cap + 32 \<le> LOGGER_BLOCK_SIZE ?cap"
    using LOGGER_BLOCK_SIZE_bounds[of ?cap] by simp
  have un: "unchanged_outside (mem w) ?m' p (p + LOGGER_BLOCK_SIZE ?cap + 2)"
    unfolding unchanged_outside_def using Bb k b32 by auto
  have pb: "page_buffer ?m' p = p + 32"
    using well_formedD(5)[OF wf mem] k b32 by (simp add: page_buffer_def load_ptr_upd)
  have r: "page_remaining ?m' p = page_remaining (mem w) p"
    using k b32 by (simp add: page_remaining_def load_int_upd)
  show ?thesis
    unfolding w' using well_formedD(6,7)[OF wf mem] r
    by (intro well_formed_update[OF wf mem un pb]) auto
qed

lemma reachable_well_formed: "reachable logger w \<Longrightarrow> well_formed w logger"
proof (induction rule: reachable.induct)
  case (create mallocv w0 page_amount page_size w)
  from logger_create_result_well_formed[OF create.hyps] show ?case .
next
  case (save w data sz index r w')
  from helper_result_well_formed[OF save.IH save.hyps(2)[unfolded logger_save_to_page_def]]
  show ?case .
next
  case (save_line w data sz index r w')
  from helper_result_well_formed[OF save_line.IH
      save_line.hyps(2)[unfolded logger_save_to_page_line_def]]
  show ?case .
next
  case (set_type w page_index t r w')
  then show ?case
    using set_page_type_result_well_formed[of w logger page_index t] by simp
next
  case (clear_page w page_index w')
  from clear_page_result_well_formed[OF clear_page.IH clear_page.hyps(2)] show ?case .
next
  case (clear_all w)
  from logger_clear_all_well_formed[OF clear_all.IH] show ?case .
next
  case (buffer_write w page_index b w' k c)
  from buffer_write_well_formed[OF buffer_write.IH buffer_write.hyps(2,3,4)] show ?case .
qed

lemma example_written_saved:
  "logger_save_to_page example_logger 4096 (''abc'' @ [NUL]) 3 0 = Inr (3, example_written)"
proof -
  from example_written_run
  have "case logger_save_to_page example_logger 4096 (''abc'' @ [NUL]) 3 0 of
          Inl f \<Rightarrow> False
        | Inr (r, w1) \<Rightarrow> r = 3 \<and> well_formed w1 4096 \<and> page_entries w1 = [4136, 4176] \<and>
            total_pages (mem w1) 4096 = 2 \<and> page_buffer_size (mem w1) 4096 = 8 \<and>
            read_bytes (mem w1) 4170 6 = CHR ''c'' # NUL # ''????'' \<and>
            read_bytes (mem w1) 4210 6 = ''??????''"
    by (simp only: example_logger_created sum.case prod.case option.case)
  from this[THEN result_caseD] show ?thesis
    by (auto simp add: example_written_def)
qed

lemma example_logger_reachable: "reachable 4096 example_logger"
  by (rule reachable.create[OF example_logger_created])
    (simp_all add: LOGGER_ALLOC_SIZE_def LOGGER_BLOCK_SIZE_eq LOGGER_SIZE_BASE_def
      BUFFER_ALIGNMENT_def)

lemma example_written_reachable: "reachable 4096 example_written"
  by (rule reachable.save[OF example_logger_reachable example_written_saved])

subsection \<open>Writes to a page that is not overdrawn\<close>

text \<open>On a page that exists and whose counter is not negative, a write stores
  \<open>min n remaining\<close> payload bytes, where \<open>n\<close> is the requested size, or the length of
  the string (as an \<^verbatim>\<open>int\<close>) when the requested size is not positive, and returns that
  count.\<close>

lemma write_not_overdrawn_size:
  assumes "well_formed w logger"
    and "entry_at (page_entries w) 0 index = Some p"
    and "0 \<le> page_remaining (mem w) p"
    and "(if sz \<le> 0 then map_option int_of_size_t (strlen data) else Some sz) = Some n"
    and "0 \<le> n"
    and "min n (page_remaining (mem w) p) \<le> int (length data)"
  shows "\<exists>w1 w2.
     logger_save_to_page w logger data sz index = Inr (min n (page_remaining (mem w) p), w1) \<and>
     logger_save_to_page_line w logger data sz index = Inr (min n (page_remaining (mem w) p), w2) \<and>
     0 \<le> min n (page_remaining (mem w) p) \<and>
     (page_remaining (mem w) p < n \<longrightarrow> min n (page_remaining (mem w) p) = page_remaining (mem w) p) \<and>
     read_bytes (mem w1)
       (page_buffer (mem w) p + (page_buffer_size (mem w) logger - page_remaining (mem w) p))
       (nat (min n (page_remaining (mem w) p))) = take (nat (min n (page_remaining (mem w) p))) data \<and>
     read_bytes (mem w2)
       (page_buffer (mem w) p + (page_buffer_size (mem w) logger - page_remaining (mem w) p))
       (nat (min n (page_remaining (mem w) p))) = take (nat (min n (page_remaining (mem w) p))) data"
proof -
  let ?s = "min n (page_remaining (mem w) p)"
  have mem: "p \<in> set (page_entries w)"
    using assms(2) by (rule entry_at_in_set)
  note pb = well_formedD(5)[OF assms(1) mem] and rc = well_formedD(7)[OF assms(1) mem]
  note h = helper_eq[OF assms]
  have "read_bytes (written (mem w) p (page_buffer_size (mem w) logger) (page_remaining (mem w) p) ?s e data)
       (p + 32 + (page_buffer_size (mem w) logger - page_remaining (mem w) p)) (nat ?s)
     = take (nat ?s) data" for e
    using h(2) assms(6) rc by (intro written_payload) simp_all
  then show ?thesis
    using h(2) by (simp add: logger_save_to_page_def logger_save_to_page_line_def h(1) pb)
qed

text \<open>On such a page the bytes are appended at offset \<open>capacity - remaining\<close>: the payload,
  then a newline and a \<^verbatim>\<open>NUL\<close> for \<^verbatim>\<open>logger_save_to_page_line\<close> (the counter goes
  down by \<open>s + 1\<close>), or only a \<^verbatim>\<open>NUL\<close> for \<^verbatim>\<open>logger_save_to_page\<close> (the counter
  goes down by \<open>s\<close>).\<close>

lemma write_not_overdrawn_region:
  assumes "well_formed w logger"
    and "entry_at (page_entries w) 0 index = Some p"
    and "0 \<le> page_remaining (mem w) p"
    and "(if sz \<le> 0 then map_option int_of_size_t (strlen data) else Some sz) = Some n"
    and "0 \<le> n"
    and "min n (page_remaining (mem w) p) \<le> int (length data)"
    and "s = min n (page_remaining (mem w) p)"
    and "offset = page_buffer_size (mem w) logger - page_remaining (mem w) p"
  shows "\<exists>w1 w2.
     logger_save_to_page_line w logger data sz index = Inr (s, w1) \<and>
     read_bytes (mem w1) (page_buffer (mem w) p + offset) (nat s + 2)
       = take (nat s) data @ [CHR 0x0A, NUL] \<and>
     page_remaining (mem w1) p = page_remaining (mem w) p - (s + 1) \<and>
     logger_save_to_page w logger data sz index = Inr (s, w2) \<and>
     read_bytes (mem w2) (page_buffer (mem w) p + offset) (nat s + 1) = take (nat s) data @ [NUL] \<and>
     page_remaining (mem w2) p = page_remaining (mem w) p - s"
proof -
  let ?rem = "page_remaining (mem w) p"
  let ?cap = "page_buffer_size (mem w) logger"
  have mem: "p \<in> set (page_entries w)"
    using assms(2) by (rule entry_at_in_set)
  note pb = well_formedD(5)[OF assms(1) mem] and rc = well_formedD(7)[OF assms(1) mem]
  note h = helper_eq[OF assms(1-6)]
  have s: "0 \<le> s" "s \<le> int (length data)" "s \<le> ?rem"
    using h(2) assms(6,7) by simp_all
  have nl: "CHR 0x0A \<noteq> NUL"
    by (simp add: NUL_def)
  have 1: "read_bytes (written (mem w) p ?cap ?rem s (CHR 0x0A) data) (p + 32 + (?cap - ?rem)) (nat s + 2)
      = take (nat s) data @ [CHR 0x0A, NUL]"
    using s rc nl by (intro written_region_line) simp_all
  have 2: "read_bytes (written (mem w) p ?cap ?rem s NUL data) (p + 32 + (?cap - ?rem)) (nat s + 1)
      = take (nat s) data @ [NUL]"
    using s rc by (intro written_region_plain) simp_all
  have 3: "page_remaining (written (mem w) p ?cap ?rem s e data) p
      = ?rem - (if e \<noteq> NUL then s + 1 else s)" for e
    using s rc remaining_int_range[of "mem w" p] by (intro written_remaining) simp_all
  show ?thesis
    using 1 2 3[of "CHR 0x0A"] 3[of NUL] nl
    by (simp add: logger_save_to_page_def logger_save_to_page_line_def h(1) pb
        flip: assms(7) assms(8))
qed

subsection \<open>The outcomes of creation when the total size fits an int\<close>

text \<open>With an allocator whose block, and two block sizes behind it, lie in the 64-bit
  address space: \<^verbatim>\<open>logger_create\<close> returns \<^verbatim>\<open>NULL\<close> exactly when the page count is not
  positive, the page size is not positive, or the allocator returns \<^verbatim>\<open>NULL\<close> for the size
  it is passed; a returned logger is well formed with fresh pages; and the only fault is a
  total size that does not fit the \<^verbatim>\<open>int\<close> parameter of \<^verbatim>\<open>mallocv\<close>.\<close>

lemma logger_create_outcomes:
  assumes "\<And>b. mallocv (int_of_size_t (LOGGER_ALLOC_SIZE page_amount (max page_size 2))) = Some b \<Longrightarrow>
      0 \<le> b \<and>
      b + LOGGER_ALLOC_SIZE page_amount (max page_size 2) + 2 * LOGGER_BLOCK_SIZE (max page_size 2)
        \<le> 18446744073709551616"
  shows "((\<exists>w'. logger_create mallocv w page_amount page_size = Inr (None, w')) \<longleftrightarrow>
       page_amount \<le> 0 \<or> page_size \<le> 0 \<or>
       mallocv (int_of_size_t (LOGGER_ALLOC_SIZE page_amount (max page_size 2))) = None) \<and>
     (\<forall>logger w'. logger_create mallocv w page_amount page_size = Inr (Some logger, w') \<longrightarrow>
       well_formed w' logger \<and>
       total_pages (mem w') logger = page_amount \<and>
       page_buffer_size (mem w') logger = max page_size 2 \<and>
       int (length (page_entries w')) = page_amount \<and>
       remaining_list w' = replicate (nat page_amount) (max page_size 2) \<and>
       type_list w' = replicate (nat page_amount) (enum_value PAGE_TYPE_DEFAULT) \<and>
       (\<forall>p \<in> set (page_entries w').
          c_string (mem w') (page_buffer (mem w') p) (nat (max page_size 2)) = [])) \<and>
     (\<forall>f. logger_create mallocv w page_amount page_size = Inl f \<longrightarrow>
       f = BlockTooSmall \<and>
       int_of_size_t (LOGGER_ALLOC_SIZE page_amount (max page_size 2))
         \<noteq> LOGGER_ALLOC_SIZE page_amount (max page_size 2))"
proof -
  let ?cap = "max page_size 2"
  let ?A = "LOGGER_ALLOC_SIZE page_amount ?cap"
  have cap': "(if page_size < 2 then 2 else page_size) = ?cap"
    by simp
  consider (bad) "page_amount \<le> 0 \<or> page_size \<le> 0"
    | (null) "0 < page_amount" "0 < page_size" "mallocv (int_of_size_t ?A) = None"
    | (big) b where "0 < page_amount" "0 < page_size" "mallocv (int_of_size_t ?A) = Some b"
        "int_of_size_t ?A \<noteq> ?A"
    | (ok) b where "0 < page_amount" "0 < page_size" "mallocv (int_of_size_t ?A) = Some b"
        "int_of_size_t ?A = ?A"
    by (cases "mallocv (int_of_size_t ?A)") force+
  then show ?thesis
  proof cases
    case bad
    then have "logger_create mallocv w page_amount page_size = Inr (None, w)"
      by (simp add: logger_create_def)
    with bad show ?thesis by auto
  next
    case null
    then have "logger_create mallocv w page_amount page_size = Inr (None, w)"
      by (simp add: logger_create_def Let_def cap')
    with null show ?thesis by auto
  next
    case big
    then have "logger_create mallocv w page_amount page_size = Inl BlockTooSmall"
      by (simp add: logger_create_def Let_def cap')
    with big show ?thesis by auto
  next
    case ok
    have B0: "0 \<le> LOGGER_BLOCK_SIZE ?cap"
      using LOGGER_BLOCK_SIZE_bounds[of ?cap] by arith
    have "ALIGN_PTR (b + LOGGER_SIZE_BASE) alignof_page_list \<le> b + 47"
      using ALIGN_PTR_8_bounds[of "b + 40"] by (simp add: LOGGER_SIZE_BASE_def alignof_page_list_def)
    then have "ALIGN_PTR (b + LOGGER_SIZE_BASE) alignof_page_list
        + (page_amount + 2) * LOGGER_BLOCK_SIZE ?cap < 18446744073709551616"
      using assms[OF ok(3)]
      by (simp add: LOGGER_ALLOC_SIZE_def LOGGER_SIZE_BASE_def BUFFER_ALIGNMENT_def algebra_simps)
    with logger_create_success[of page_amount page_size ?cap mallocv b w] ok assms[OF ok(3)] B0
    obtain w' where cr: "logger_create mallocv w page_amount page_size = Inr (Some b, w')"
      and wf: "well_formed w' b"
      and hc: "page_buffer_size (mem w') b = ?cap" and hn: "total_pages (mem w') b = page_amount"
      and fr: "\<And>p. p \<in> set (page_entries w') \<Longrightarrow> page_fresh (mem w') p ?cap"
      by auto
    have len: "int (length (page_entries w')) = page_amount"
      using well_formedD(4)[OF wf] hn by simp
    then have len': "length (page_entries w') = nat page_amount"
      by simp
    have rl: "remaining_list w' = replicate (nat page_amount) ?cap"
      unfolding remaining_list_def len'[symmetric]
      using fr by (intro map_const_replicate) (simp add: page_fresh_def)
    have tl: "type_list w' = replicate (nat page_amount) (enum_value PAGE_TYPE_DEFAULT)"
      unfolding type_list_def len'[symmetric]
      using fr by (intro map_const_replicate) (simp add: page_fresh_def)
    have cs: "c_string (mem w') (page_buffer (mem w') p) (nat ?cap) = []"
      if "p \<in> set (page_entries w')" for p
      using fr[OF that] by (intro c_string_empty) (simp_all add: page_fresh_def)
    show ?thesis
      using ok(1,2,3,4) cr wf hc hn len rl tl cs by simp
  qed
qed

section \<open>The claims\<close>

text \<open>C2.  A write to a page that exists is meant to store \<open>min n remaining\<close> payload bytes
  and to succeed even when that is less than what was asked for.  It does not on a page
  whose counter a full line write has left at \<open>-1\<close>: on the example logger, after the
  8 bytes \<open>abcdefgh\<close> have been written as a line to page 0, a
  \<^verbatim>\<open>logger_save_to_page\<close> of one byte to page 0 cuts the size to \<open>-1\<close> and hands it to
  \<^verbatim>\<open>memcpy\<close>; the call does not return.\<close>

theorem write_to_overdrawn_page_faults:
  "\<exists>w1. logger_save_to_page_line example_logger 4096 (''abcdefgh'' @ [NUL]) 8 0 = Inr (8, w1) \<and>
     remaining_list w1 = [- 1, 8] \<and>
     logger_save_to_page w1 4096 (''x'' @ [NUL]) 1 0 = Inl BadMemcpy"
proof -
  have "case logger_create (mallocv_at 4096) (fresh (\<lambda>a. CHR ''?'')) 2 8 of
          Inl f \<Rightarrow> False
        | Inr (None, w) \<Rightarrow> False
        | Inr (Some l, w) \<Rightarrow>
            (case logger_save_to_page_line w l (''abcdefgh'' @ [NUL]) 8 0 of
               Inl f \<Rightarrow> False
             | Inr (r, w1) \<Rightarrow> r = 8 \<and> remaining_list w1 = [- 1, 8] \<and>
                 (case logger_save_to_page w1 l (''x'' @ [NUL]) 1 0 of
                    Inl f \<Rightarrow> f = BadMemcpy
                  | Inr x \<Rightarrow> False))"
    by code_simp
  then have "case logger_save_to_page_line example_logger 4096 (''abcdefgh'' @ [NUL]) 8 0 of
               Inl f \<Rightarrow> False
             | Inr (r, w1) \<Rightarrow> r = 8 \<and> remaining_list w1 = [- 1, 8] \<and>
                 (case logger_save_to_page w1 4096 (''x'' @ [NUL]) 1 0 of
                    Inl f \<Rightarrow> f = BadMemcpy
                  | Inr x \<Rightarrow> False)"
    by (simp only: example_logger_created sum.case prod.case option.case)
  from this[THEN result_caseD]
  obtain w1 where 1: "logger_save_to_page_line example_logger 4096 (''abcdefgh'' @ [NUL]) 8 0 = Inr (8, w1)"
    "remaining_list w1 = [- 1, 8]"
    and 2: "case logger_save_to_page w1 4096 (''x'' @ [NUL]) 1 0 of
              Inl f \<Rightarrow> f = BadMemcpy
            | Inr x \<Rightarrow> False"
    by blast
  from 1 2[THEN fault_caseD] show ?thesis
    by blast
qed

text \<open>C1.  The counter of a page is meant to stay between 0 and the page size.  A line
  write that fills the page breaks the lower bound: on the example logger (two pages of
  8 bytes) writing the 8 bytes \<open>abcdefgh\<close> as a line to page 0 returns 8 and leaves page 0
  with \<open>remaining = -1\<close>; the newline and the \<^verbatim>\<open>NUL\<close> were stored past the 8 bytes of
  the page.\<close>

theorem line_write_overdraws_remaining:
  "\<exists>w'. logger_save_to_page_line example_logger 4096 (''abcdefgh'' @ [NUL]) 8 0 = Inr (8, w') \<and>
        remaining_list example_logger = [8, 8] \<and> remaining_list w' = [- 1, 8]"
proof -
  have "case logger_create (mallocv_at 4096) (fresh (\<lambda>a. CHR ''?'')) 2 8 of
          Inl f \<Rightarrow> False
        | Inr (None, w) \<Rightarrow> False
        | Inr (Some l, w) \<Rightarrow>
            (case logger_save_to_page_line w l (''abcdefgh'' @ [NUL]) 8 0 of
               Inl f \<Rightarrow> False
             | Inr (r, w') \<Rightarrow> r = 8 \<and> remaining_list w' = [- 1, 8])"
    by code_simp
  then have "case logger_save_to_page_line example_logger 4096 (''abcdefgh'' @ [NUL]) 8 0 of
               Inl f \<Rightarrow> False
             | Inr (r, w') \<Rightarrow> r = 8 \<and> remaining_list w' = [- 1, 8]"
    by (simp only: example_logger_created sum.case prod.case option.case)
  from this[THEN result_caseD] show ?thesis
    using example_logger_remaining by blast
qed

text \<open>C10.  A write to page 0 is meant to leave page 1 alone.  On the example logger the
  buffer of page 0 ends where the record of page 1 begins, so the newline and the
  \<^verbatim>\<open>NUL\<close> that a full line write stores behind the payload land in the \<^verbatim>\<open>type\<close>
  field of page 1: its type changes from 0 (\<^verbatim>\<open>PAGE_TYPE_DEFAULT\<close>) to 10.\<close>

theorem write_changes_next_page_type:
  "\<exists>w'. logger_save_to_page_line example_logger 4096 (''abcdefgh'' @ [NUL]) 8 0 = Inr (8, w') \<and>
        type_list example_logger = [0, 0] \<and> type_list w' = [0, 10]"
proof -
  have "case logger_create (mallocv_at 4096) (fresh (\<lambda>a. CHR ''?'')) 2 8 of
          Inl f \<Rightarrow> False
        | Inr (None, w) \<Rightarrow> False
        | Inr (Some l, w) \<Rightarrow>
            (case logger_save_to_page_line w l (''abcdefgh'' @ [NUL]) 8 0 of
               Inl f \<Rightarrow> False
             | Inr (r, w') \<Rightarrow> r = 8 \<and> type_list w' = [0, 10])"
    by code_simp
  then have "case logger_save_to_page_line example_logger 4096 (''abcdefgh'' @ [NUL]) 8 0 of
               Inl f \<Rightarrow> False
             | Inr (r, w') \<Rightarrow> r = 8 \<and> type_list w' = [0, 10]"
    by (simp only: example_logger_created sum.case prod.case option.case)
  from this[THEN result_caseD] show ?thesis
    using example_logger_types by blast
qed

text \<open>C4.  A write to a page with no capacity left is documented to return the error value
  \<open>-1\<close>.  On the example logger, after 8 bytes have filled page 0, a further
  \<^verbatim>\<open>logger_save_to_page\<close> of one byte to page 0 returns 0, not \<open>-1\<close>.\<close>

theorem write_to_full_page_returns_zero:
  "\<exists>w1 w2. logger_save_to_page example_logger 4096 (''abcdefgh'' @ [NUL]) 8 0 = Inr (8, w1) \<and>
     remaining_list w1 = [0, 8] \<and>
     logger_save_to_page w1 4096 (''x'' @ [NUL]) 1 0 = Inr (0, w2)"
proof -
  have "case logger_create (mallocv_at 4096) (fresh (\<lambda>a. CHR ''?'')) 2 8 of
          Inl f \<Rightarrow> False
        | Inr (None, w) \<Rightarrow> False
        | Inr (Some l, w) \<Rightarrow>
            (case logger_save_to_page w l (''abcdefgh'' @ [NUL]) 8 0 of
               Inl f \<Rightarrow> False
             | Inr (r, w1) \<Rightarrow> r = 8 \<and> remaining_list w1 = [0, 8] \<and>
                 (case logger_save_to_page w1 4096 (''x'' @ [NUL]) 1 0 of
                    Inl f \<Rightarrow> False
                  | Inr (r', w2) \<Rightarrow> r' = 0 \<and> r' = 0))"
    by code_simp
  then have "case logger_save_to_page example_logger 4096 (''abcdefgh'' @ [NUL]) 8 0 of
               Inl f \<Rightarrow> False
             | Inr (r, w1) \<Rightarrow> r = 8 \<and> remaining_list w1 = [0, 8] \<and>
                 (case logger_save_to_page w1 4096 (''x'' @ [NUL]) 1 0 of
                    Inl f \<Rightarrow> False
                  | Inr (r', w2) \<Rightarrow> r' = 0 \<and> r' = 0)"
    by (simp only: example_logger_created sum.case prod.case option.case)
  from this[THEN result_caseD]
  obtain w1 where 1: "logger_save_to_page example_logger 4096 (''abcdefgh'' @ [NUL]) 8 0 = Inr (8, w1)"
    "remaining_list w1 = [0, 8]"
    and 2: "case logger_save_to_page w1 4096 (''x'' @ [NUL]) 1 0 of
               Inl f \<Rightarrow> False | Inr (r', w2) \<Rightarrow> r' = 0 \<and> r' = 0"
    by blast
  from 2[THEN result_caseD]
  obtain w2 where "logger_save_to_page w1 4096 (''x'' @ [NUL]) 1 0 = Inr (0, w2)"
    by blast
  with 1 show ?thesis by blast
qed

text \<open>C5.  The scenario of the specification: a logger of 3 pages of 16 bytes; the line
  \<open>hello\<close> (size 5) written to page 0 returns 5, leaves 10 bytes and the buffer reading
  \<open>hello\<close> and a newline; then \<open>world12345678901234\<close> (an array of 20 bytes, size 20,
  no terminator) returns 10, leaves 0 bytes, and the buffer holds the first text followed by
  the 10 bytes \<open>world12345\<close> and a \<^verbatim>\<open>NUL\<close>.\<close>

theorem scenario_hello_world:
  "\<exists>logger w w1 w2.
     logger_create (mallocv_at 4096) (fresh (\<lambda>a. CHR ''?'')) 3 16 = Inr (Some logger, w) \<and>
     logger_save_to_page_line w logger (''hello'' @ [NUL]) 5 0 = Inr (5, w1) \<and>
     remaining_list w1 = [10, 16, 16] \<and>
     c_string (mem w1) (page_buffer (mem w1) (hd (page_entries w1))) 16 = ''hello'' @ [CHR 0x0A] \<and>
     logger_save_to_page w1 logger (''world12345678901234'' @ [NUL]) 20 0 = Inr (10, w2) \<and>
     remaining_list w2 = [0, 16, 16] \<and>
     read_bytes (mem w2) (page_buffer (mem w2) (hd (page_entries w2))) 17
       = ''hello'' @ [CHR 0x0A] @ ''world12345'' @ [NUL]"
proof -
  have "case logger_create (mallocv_at 4096) (fresh (\<lambda>a. CHR ''?'')) 3 16 of
     Inl f \<Rightarrow> False
   | Inr (None, w) \<Rightarrow> False
   | Inr (Some logger, w) \<Rightarrow>
       (case logger_save_to_page_line w logger (''hello'' @ [NUL]) 5 0 of
          Inl f \<Rightarrow> False
        | Inr (r1, w1) \<Rightarrow> r1 = 5 \<and> remaining_list w1 = [10, 16, 16] \<and>
            c_string (mem w1) (page_buffer (mem w1) (hd (page_entries w1))) 16
              = ''hello'' @ [CHR 0x0A] \<and>
            (case logger_save_to_page w1 logger (''world12345678901234'' @ [NUL]) 20 0 of
               Inl f \<Rightarrow> False
             | Inr (r2, w2) \<Rightarrow> r2 = 10 \<and> remaining_list w2 = [0, 16, 16] \<and>
                 read_bytes (mem w2) (page_buffer (mem w2) (hd (page_entries w2))) 17
                   = ''hello'' @ [CHR 0x0A] @ ''world12345'' @ [NUL]))"
    by code_simp
  from this[THEN created_caseD] obtain logger w where 0:
    "logger_create (mallocv_at 4096) (fresh (\<lambda>a. CHR ''?'')) 3 16 = Inr (Some logger, w)"
    and a: "case logger_save_to_page_line w logger (''hello'' @ [NUL]) 5 0 of
          Inl f \<Rightarrow> False
        | Inr (r1, w1) \<Rightarrow> r1 = 5 \<and> remaining_list w1 = [10, 16, 16] \<and>
            c_string (mem w1) (page_buffer (mem w1) (hd (page_entries w1))) 16
              = ''hello'' @ [CHR 0x0A] \<and>
            (case logger_save_to_page w1 logger (''world12345678901234'' @ [NUL]) 20 0 of
               Inl f \<Rightarrow> False
             | Inr (r2, w2) \<Rightarrow> r2 = 10 \<and> remaining_list w2 = [0, 16, 16] \<and>
                 read_bytes (mem w2) (page_buffer (mem w2) (hd (page_entries w2))) 17
                   = ''hello'' @ [CHR 0x0A] @ ''world12345'' @ [NUL])"
    by blast
  from a[THEN result_caseD] obtain w1 where 1:
    "logger_save_to_page_line w logger (''hello'' @ [NUL]) 5 0 = Inr (5, w1)"
    "remaining_list w1 = [10, 16, 16]"
    "c_string (mem w1) (page_buffer (mem w1) (hd (page_entries w1))) 16 = ''hello'' @ [CHR 0x0A]"
    and b: "case logger_save_to_page w1 logger (''world12345678901234'' @ [NUL]) 20 0 of
               Inl f \<Rightarrow> False
             | Inr (r2, w2) \<Rightarrow> r2 = 10 \<and> remaining_list w2 = [0, 16, 16] \<and>
                 read_bytes (mem w2) (page_buffer (mem w2) (hd (page_entries w2))) 17
                   = ''hello'' @ [CHR 0x0A] @ ''world12345'' @ [NUL]"
    by blast
  from b[THEN result_caseD] obtain w2 where 2:
    "logger_save_to_page w1 logger (''world12345678901234'' @ [NUL]) 20 0 = Inr (10, w2)"
    "remaining_list w2 = [0, 16, 16]"
    "read_bytes (mem w2) (page_buffer (mem w2) (hd (page_entries w2))) 17
       = ''hello'' @ [CHR 0x0A] @ ''world12345'' @ [NUL]"
    by blast
  from 0 1 2 show ?thesis by blast
qed

text \<open>C3.  A write to a page that exists is meant to append the payload and the terminator
  and to return the payload size \<open>s\<close>.  It does not on an overdrawn page: on the example
  logger, 7 bytes written to page 1 leave 1 byte; a line write of one byte then stores the
  byte, the newline and the \<^verbatim>\<open>NUL\<close> and leaves the counter at \<open>-1\<close>; after that neither
  \<^verbatim>\<open>logger_save_to_page_line\<close> nor \<^verbatim>\<open>logger_save_to_page\<close> on page 1 returns: the
  size \<open>-1\<close> reaches \<^verbatim>\<open>memcpy\<close>.\<close>

theorem write_region_on_overdrawn_page_faults:
  "\<exists>w1 w2. logger_save_to_page example_logger 4096 (''abcdefg'' @ [NUL]) 0 1 = Inr (7, w1) \<and>
     remaining_list w1 = [8, 1] \<and>
     logger_save_to_page_line w1 4096 (''h'' @ [NUL]) 1 1 = Inr (1, w2) \<and>
     remaining_list w2 = [8, - 1] \<and>
     logger_save_to_page_line w2 4096 (''xy'' @ [NUL]) 2 1 = Inl BadMemcpy \<and>
     logger_save_to_page w2 4096 (''xy'' @ [NUL]) 0 1 = Inl BadMemcpy"
proof -
  have "case logger_create (mallocv_at 4096) (fresh (\<lambda>a. CHR ''?'')) 2 8 of
          Inl f \<Rightarrow> False
        | Inr (None, w) \<Rightarrow> False
        | Inr (Some l, w) \<Rightarrow>
            (case logger_save_to_page w l (''abcdefg'' @ [NUL]) 0 1 of
               Inl f \<Rightarrow> False
             | Inr (r, w1) \<Rightarrow> r = 7 \<and> remaining_list w1 = [8, 1] \<and>
                 (case logger_save_to_page_line w1 l (''h'' @ [NUL]) 1 1 of
                    Inl f \<Rightarrow> False
                  | Inr (r, w2) \<Rightarrow> r = 1 \<and> remaining_list w2 = [8, - 1] \<and>
                      (case logger_save_to_page_line w2 l (''xy'' @ [NUL]) 2 1 of
                         Inl f \<Rightarrow> f = BadMemcpy
                       | Inr x \<Rightarrow> False) \<and>
                      (case logger_save_to_page w2 l (''xy'' @ [NUL]) 0 1 of
                         Inl f \<Rightarrow> f = BadMemcpy
                       | Inr x \<Rightarrow> False)))"
    by code_simp
  then have "case logger_save_to_page example_logger 4096 (''abcdefg'' @ [NUL]) 0 1 of
               Inl f \<Rightarrow> False
             | Inr (r, w1) \<Rightarrow> r = 7 \<and> remaining_list w1 = [8, 1] \<and>
                 (case logger_save_to_page_line w1 4096 (''h'' @ [NUL]) 1 1 of
                    Inl f \<Rightarrow> False
                  | Inr (r, w2) \<Rightarrow> r = 1 \<and> remaining_list w2 = [8, - 1] \<and>
                      (case logger_save_to_page_line w2 4096 (''xy'' @ [NUL]) 2 1 of
                         Inl f \<Rightarrow> f = BadMemcpy
                       | Inr x \<Rightarrow> False) \<and>
                      (case logger_save_to_page w2 4096 (''xy'' @ [NUL]) 0 1 of
                         Inl f \<Rightarrow> f = BadMemcpy
                       | Inr x \<Rightarrow> False))"
    by (simp only: example_logger_created sum.case prod.case option.case)
  from this[THEN result_caseD]
  obtain w1 where 1: "logger_save_to_page example_logger 4096 (''abcdefg'' @ [NUL]) 0 1 = Inr (7, w1)"
    "remaining_list w1 = [8, 1]"
    and 2: "case logger_save_to_page_line w1 4096 (''h'' @ [NUL]) 1 1 of
                    Inl f \<Rightarrow> False
                  | Inr (r, w2) \<Rightarrow> r = 1 \<and> remaining_list w2 = [8, - 1] \<and>
                      (case logger_save_to_page_line w2 4096 (''xy'' @ [NUL]) 2 1 of
                         Inl f \<Rightarrow> f = BadMemcpy
                       | Inr x \<Rightarrow> False) \<and>
                      (case logger_save_to_page w2 4096 (''xy'' @ [NUL]) 0 1 of
                         Inl f \<Rightarrow> f = BadMemcpy
                       | Inr x \<Rightarrow> False)"
    by blast
  from 2[THEN result_caseD]
  obtain w2 where 3: "logger_save_to_page_line w1 4096 (''h'' @ [NUL]) 1 1 = Inr (1, w2)"
    "remaining_list w2 = [8, - 1]"
    and 4: "case logger_save_to_page_line w2 4096 (''xy'' @ [NUL]) 2 1 of
              Inl f \<Rightarrow> f = BadMemcpy
            | Inr x \<Rightarrow> False"
    and 5: "case logger_save_to_page w2 4096 (''xy'' @ [NUL]) 0 1 of
              Inl f \<Rightarrow> f = BadMemcpy
            | Inr x \<Rightarrow> False"
    by blast
  from 1 3 4[THEN fault_caseD] 5[THEN fault_caseD] show ?thesis
    by blast
qed

text \<open>C7.  With an index that is negative or not below the page count,
  \<^verbatim>\<open>logger_set_page_type\<close> returns \<open>-1\<close> and \<^verbatim>\<open>logger_get_page_buffer\<close> returns
  \<^verbatim>\<open>NULL\<close>, and both leave the whole machine state as it was.\<close>

theorem invalid_index_not_found:
  assumes "well_formed w logger"
    and "page_index < 0 \<or> total_pages (mem w) logger \<le> page_index"
  shows "logger_set_page_type w logger page_index t = (- 1, w) \<and>
         logger_get_page_buffer w logger page_index = (None, w)"
  using assms(2)
  by (auto simp add: logger_set_page_type_def logger_get_page_buffer_def
      entry_at_well_formed[OF assms(1)])

theorem invalid_index_not_found_witness:
  "well_formed example_logger 4096 \<and>
   total_pages (mem example_logger) 4096 \<le> 2 \<and>
   logger_set_page_type example_logger 4096 2 PAGE_TYPE_WARNING = (- 1, example_logger) \<and>
   logger_get_page_buffer example_logger 4096 2 = (None, example_logger) \<and>
   logger_set_page_type example_logger 4096 (- 1) PAGE_TYPE_WARNING = (- 1, example_logger) \<and>
   logger_get_page_buffer example_logger 4096 (- 1) = (None, example_logger)"
proof -
  have h1: "well_formed example_logger 4096"
    by (rule example_logger_well_formed)
  have h2: "(2::int) < 0 \<or> total_pages (mem example_logger) 4096 \<le> 2"
    by (simp add: example_logger_pages)
  have h3: "(- 1::int) < 0 \<or> total_pages (mem example_logger) 4096 \<le> - 1"
    by simp
  show ?thesis
    using invalid_index_not_found[OF h1 h2, of PAGE_TYPE_WARNING]
      invalid_index_not_found[OF h1 h3, of PAGE_TYPE_WARNING] h1
    by (simp add: example_logger_pages)
qed

text \<open>C6.  \<^verbatim>\<open>logger_create\<close> is meant to return \<^verbatim>\<open>NULL\<close> when the allocator cannot
  satisfy the total size, and a logger otherwise.  The total size is cut to an \<^verbatim>\<open>int\<close>
  on its way to \<^verbatim>\<open>mallocv\<close>.  For 2 pages of \<open>2147483647\<close> bytes the total
  \<open>4294967408\<close> becomes \<open>112\<close>: the allocator hands out a block of 112 bytes and the
  pages are laid out far behind its end, so the call yields neither \<^verbatim>\<open>NULL\<close> nor a
  logger.  For 1 page of that size the total \<open>2147483728\<close> becomes negative and the call
  returns \<^verbatim>\<open>NULL\<close> without the allocator having been asked for the total.\<close>

theorem create_wraps_total_size:
  "LOGGER_ALLOC_SIZE 2 2147483647 = 4294967408 \<and>
   int_of_size_t (LOGGER_ALLOC_SIZE 2 2147483647) = 112 \<and>
   logger_create (mallocv_at 4096) (fresh (\<lambda>a. CHR ''?'')) 2 2147483647 = Inl BlockTooSmall \<and>
   LOGGER_ALLOC_SIZE 1 2147483647 = 2147483728 \<and>
   int_of_size_t (LOGGER_ALLOC_SIZE 1 2147483647) = - 2147483568 \<and>
   logger_create (mallocv_at 4096) (fresh (\<lambda>a. CHR ''?'')) 1 2147483647
     = Inr (None, fresh (\<lambda>a. CHR ''?''))"
proof -
  have A2: "LOGGER_ALLOC_SIZE 2 2147483647 = 4294967408"
    and A1: "LOGGER_ALLOC_SIZE 1 2147483647 = 2147483728"
    by (simp_all add: LOGGER_ALLOC_SIZE_def LOGGER_BLOCK_SIZE_eq LOGGER_SIZE_BASE_def
        BUFFER_ALIGNMENT_def)
  have I2: "int_of_size_t 4294967408 = 112" and I1: "int_of_size_t 2147483728 = - 2147483568"
    by (simp_all add: int_of_size_t_def)
  show ?thesis
    by (simp add: logger_create_def Let_def A1 A2 I1 I2 mallocv_at_def)
qed

subsection \<open>Clearing a page and the page type\<close>

text \<open>C8, as the claim states it, fails.  On the example logger with page 0 tagged
  \<^verbatim>\<open>PAGE_TYPE_WARNING\<close> (3), \<^verbatim>\<open>logger_clear_page\<close> of page 0 does not leave the type as it
  was: the types of the two pages are 3 and 0 before the call, 0 and 0 after it.\<close>

theorem clear_page_keeps_type_counterexample:
  "type_list example_tagged = [3, 0] \<and>
   map_sum id type_list (logger_clear_page example_tagged 4096 0) = Inr [0, 0]"
  using example_tagged_types example_tagged_cleared
  by (cases "logger_clear_page example_tagged 4096 0") simp_all

text \<open>C8, amended: \<^verbatim>\<open>logger_clear_page\<close> on an index that exists sets the counter of the
  page back to the page size, zeroes the whole buffer and sets the type to
  \<^verbatim>\<open>PAGE_TYPE_DEFAULT\<close>, and \<^verbatim>\<open>logger_clear_all\<close> sets the type of every page to
  \<^verbatim>\<open>PAGE_TYPE_DEFAULT\<close> as well.\<close>

theorem clear_page_resets_type:
  assumes "well_formed w logger"
    and "entry_at (page_entries w) 0 page_index = Some p"
  shows "\<exists>w'. logger_clear_page w logger page_index = Inr w' \<and>
     page_remaining (mem w') p = page_buffer_size (mem w) logger \<and>
     read_bytes (mem w') (page_buffer (mem w') p) (nat (page_buffer_size (mem w) logger))
       = replicate (nat (page_buffer_size (mem w) logger)) NUL \<and>
     page_type (mem w') p = enum_value PAGE_TYPE_DEFAULT \<and>
     type_list (logger_clear_all w logger)
       = replicate (length (page_entries w)) (enum_value PAGE_TYPE_DEFAULT)"
proof -
  let ?cap = "page_buffer_size (mem w) logger"
  let ?w' = "w\<lparr>mem := page_cleared (mem w) p ?cap\<rparr>"
  have mem: "p \<in> set (page_entries w)"
    using assms(2) by (rule entry_at_in_set)
  note pc = page_cleared_well_formed[OF assms(1) mem]
  have "page_buffer (mem ?w') p = p + 32"
    using well_formedD(5)[OF pc(1)] mem by simp
  moreover have "type_list (logger_clear_all w logger)
       = replicate (length (page_entries w)) (enum_value PAGE_TYPE_DEFAULT)"
    unfolding type_list_def logger_clear_all_props(1)[OF assms(1)]
    using logger_clear_all_fields(1)[OF assms(1)] by (intro map_const_replicate)
  ultimately show ?thesis
    using logger_clear_page_eq[OF assms] pc(3,4,5) by simp
qed

theorem clear_page_resets_type_witness:
  "well_formed example_tagged 4096 \<and>
   entry_at (page_entries example_tagged) 0 0 = Some 4136 \<and>
   page_type (mem example_tagged) 4136 = 3 \<and>
   (\<exists>w'. logger_clear_page example_tagged 4096 0 = Inr w' \<and>
      page_remaining (mem w') 4136 = 8 \<and>
      read_bytes (mem w') (page_buffer (mem w') 4136) 8 = replicate 8 NUL \<and>
      page_type (mem w') 4136 = 0 \<and>
      type_list (logger_clear_all example_tagged 4096) = [0, 0])"
proof -
  have h1: "well_formed example_tagged 4096"
    by (rule example_tagged_well_formed)
  have h2: "entry_at (page_entries example_tagged) 0 0 = Some 4136"
    by (simp add: example_tagged_entries)
  show ?thesis
    using clear_page_resets_type[OF h1 h2] h1 h2 example_tagged_type0
    by (simp add: example_tagged_entries example_tagged_cap numeral_2_eq_2)
qed

subsection \<open>Clearing all pages and clearing them one by one\<close>

text \<open>C9, as the claim states it, fails.  On the example logger with \<open>abc\<close> written to
  page 0, clearing page 0 and page 1 in turn leaves both buffers all zero, while
  \<^verbatim>\<open>logger_clear_all\<close> zeroes only the first two bytes of each buffer: the \<open>c\<close> and the
  bytes never written are still there.  The counters and the types agree.\<close>

theorem clear_all_matches_clear_each_counterexample:
  "map_sum id (observe 8)
     (clear_each example_written 4096 [0..total_pages (mem example_written) 4096 - 1])
     = Inr ([8, 8], [0, 0], [replicate 8 NUL, replicate 8 NUL]) \<and>
   observe 8 (logger_clear_all example_written 4096)
     = ([8, 8], [0, 0], [[NUL, NUL, CHR ''c'', NUL] @ ''????'', [NUL, NUL] @ ''??????''])"
proof -
  note wf = example_written_well_formed
  let ?ca = "logger_clear_all example_written 4096"
  from clear_each_all[OF wf]
  obtain w1 where w1:
    "clear_each example_written 4096 [0..total_pages (mem example_written) 4096 - 1] = Inr w1"
    by blast
  note cc = clear_all_vs_clear_each[OF wf w1] clear_all_vs_clear_each_buffers(1)[OF wf w1]
  have "observe 8 w1 = ([8, 8], [0, 0], [replicate 8 NUL, replicate 8 NUL])"
    using cc(4,6,13)
    by (simp add: observe_def example_written_entries example_written_cap numeral_2_eq_2)
  moreover have "buffer_list ?ca 8 = [[NUL, NUL, CHR ''c'', NUL] @ ''????'', [NUL, NUL] @ ''??????'']"
  proof -
    have q: "4136 \<in> set (page_entries example_written)" "4176 \<in> set (page_entries example_written)"
      by (simp_all add: example_written_entries)
    have t: "read_bytes (mem ?ca) (p + 34) 6 = read_bytes (mem example_written) (p + 34) 6"
      if "p \<in> set (page_entries example_written)" for p
    proof (rule read_bytes_cong)
      fix x assume "p + 34 \<le> x" "x < p + 34 + int 6"
      then show "mem ?ca x = mem example_written x"
        using logger_clear_all_tail_kept[OF wf that, of "x - (p + 32)"]
        by (simp add: example_written_cap)
    qed
    have "read_bytes (mem ?ca) (p + 32) 8
        = [NUL, NUL] @ read_bytes (mem example_written) (p + 34) 6"
      if "p \<in> set (page_entries example_written)" for p
      using read_bytes_append[of "mem ?ca" "p + 32" 2 6] t[OF that]
        logger_clear_all_fields(4,5)[OF wf that]
      by (simp add: read_bytes_2 add.assoc)
    from this[OF q(1)] this[OF q(2)] show ?thesis
      using logger_clear_all_fields(3)[OF wf q(1)] logger_clear_all_fields(3)[OF wf q(2)]
      by (simp add: buffer_list_def cc(3) example_written_entries example_written_tail0
          example_written_tail1)
  qed
  ultimately show ?thesis
    using cc(5,7) w1
    by (simp add: observe_def example_written_entries example_written_cap numeral_2_eq_2)
qed

text \<open>C9, amended.  In every reachable state of a logger, clearing the pages \<open>0\<close> to
  \<open>total_pages - 1\<close> one by one succeeds, and the state it gives and the state after
  \<^verbatim>\<open>logger_clear_all\<close> have the same counters, the same types, the same first two bytes in
  every buffer and so the same (empty) string in every buffer.  From byte 2 on the buffers
  are all zero after the single-page clears and as they were after \<^verbatim>\<open>logger_clear_all\<close>.
  Either way of clearing, done again, changes nothing.\<close>

theorem clear_all_matches_clear_each:
  assumes "reachable logger w"
  shows "\<exists>w1. clear_each w logger [0..total_pages (mem w) logger - 1] = Inr w1 \<and>
     remaining_list (logger_clear_all w logger) = remaining_list w1 \<and>
     type_list (logger_clear_all w logger) = type_list w1 \<and>
     buffer_list (logger_clear_all w logger) 2 = buffer_list w1 2 \<and>
     string_list (logger_clear_all w logger) (nat (page_buffer_size (mem w) logger))
       = string_list w1 (nat (page_buffer_size (mem w) logger)) \<and>
     buffer_list w1 (nat (page_buffer_size (mem w) logger))
       = replicate (length (page_entries w))
           (replicate (nat (page_buffer_size (mem w) logger)) NUL) \<and>
     map (drop 2) (buffer_list (logger_clear_all w logger) (nat (page_buffer_size (mem w) logger)))
       = map (drop 2) (buffer_list w (nat (page_buffer_size (mem w) logger))) \<and>
     logger_clear_all (logger_clear_all w logger) logger = logger_clear_all w logger \<and>
     clear_each w1 logger [0..total_pages (mem w) logger - 1] = Inr w1"
proof -
  note wf = reachable_well_formed[OF assms]
  from clear_each_all[OF wf]
  obtain w1 where w1: "clear_each w logger [0..total_pages (mem w) logger - 1] = Inr w1"
    by blast
  note cc = clear_all_vs_clear_each[OF wf w1]
  note cb = clear_all_vs_clear_each_buffers[OF wf w1]
  have "0 < nat (page_buffer_size (mem w) logger)"
    using well_formedD(1)[OF wf] by simp
  then show ?thesis
    using w1 cc(4-9,12) cb(1) cb(2)[OF order_refl] cb(3,4) logger_clear_all_idem[OF wf]
    by simp
qed

theorem clear_all_matches_clear_each_witness:
  "reachable 4096 example_written \<and>
   (\<exists>w1. clear_each example_written 4096 [0..1] = Inr w1 \<and>
      remaining_list (logger_clear_all example_written 4096) = remaining_list w1 \<and>
      type_list (logger_clear_all example_written 4096) = type_list w1 \<and>
      buffer_list (logger_clear_all example_written 4096) 2 = buffer_list w1 2 \<and>
      string_list (logger_clear_all example_written 4096) 8 = string_list w1 8 \<and>
      buffer_list w1 8 = [replicate 8 NUL, replicate 8 NUL] \<and>
      map (drop 2) (buffer_list (logger_clear_all example_written 4096) 8)
        = map (drop 2) (buffer_list example_written 8) \<and>
      logger_clear_all (logger_clear_all example_written 4096) 4096
        = logger_clear_all example_written 4096 \<and>
      clear_each w1 4096 [0..1] = Inr w1)"
  using clear_all_matches_clear_each[OF example_written_reachable] example_written_reachable
  by (simp add: example_written_entries example_written_cap example_written_pages numeral_2_eq_2)

end
